theory Spec2Isabelle
  imports Complex_Main "HOL-Library.Log_Nat"
begin

section \<open>Data model (src/src/App.tsx, lines 4-30)\<close>

text \<open>
  The interfaces \<open>Process\<close>, \<open>GanttEntry\<close> and \<open>SimulationState\<close> of the source. The numeric
  fields hold integers (the form fields go through \<open>parseInt\<close>), so they are \<open>int\<close>. The field
  \<open>id\<close> is called \<open>pid\<close> here and the field \<open>end\<close> is called \<open>end_time\<close>, because \<open>id\<close> is a
  HOL constant and \<open>end\<close> is a keyword; the colour of a chart entry is \<open>entry_color\<close>.
\<close>

record process =
  pid :: int
  name :: string
  arrival :: int
  burst :: int
  priority :: int
  remaining :: int
  color :: string

record gantt_entry =
  process :: string
  start :: int
  end_time :: int
  entry_color :: string

record simulation_state =
  currentTime :: int
  ganttChart :: "gantt_entry list"
  currentProcess :: "process option"
  readyQueue :: "process list"
  completedProcesses :: "int list"
  quantumRemaining :: int
  isRunning :: bool

section \<open>The algorithm selector (lines 43-97)\<close>

text \<open>
  \<open>Array.prototype.sort\<close> with a comparator: an element \<open>a\<close> goes before \<open>b\<close> when the
  comparator is negative, after it when positive, and the sort is stable when it is zero.
  For a comparator that is a consistent ordering every engine returns the array that this
  stable insertion sort returns. (The comparator of HRN is not consistent; what is proved
  about HRN below says what it relies on.)
\<close>

fun insert_sorted :: "('a \<Rightarrow> 'a \<Rightarrow> 'n::linordered_idom) \<Rightarrow> 'a \<Rightarrow> 'a list \<Rightarrow> 'a list" where
  "insert_sorted cmp x [] = [x]"
| "insert_sorted cmp x (y # ys) =
     (if cmp x y \<le> 0 then x # y # ys else y # insert_sorted cmp x ys)"

definition sort_js :: "('a \<Rightarrow> 'a \<Rightarrow> 'n::linordered_idom) \<Rightarrow> 'a list \<Rightarrow> 'a list" where
  "sort_js cmp xs = foldr (insert_sorted cmp) xs []"

text \<open>The element \<open>[0]\<close> of an array; \<open>undefined\<close> (here \<open>None\<close>) on the empty array.\<close>

definition first :: "'a list \<Rightarrow> 'a option" where
  "first xs = (case xs of [] \<Rightarrow> None | x # _ \<Rightarrow> Some x)"

text \<open>The comparators, one for each \<open>case\<close> of the \<open>switch\<close>.\<close>

definition cmpFCFS :: "process \<Rightarrow> process \<Rightarrow> int" where
  "cmpFCFS a b = (if arrival a = arrival b then pid a - pid b else arrival a - arrival b)"

definition cmpSJF :: "process \<Rightarrow> process \<Rightarrow> int" where
  "cmpSJF a b = (if burst a = burst b then arrival a - arrival b else burst a - burst b)"

definition cmpSRT :: "process \<Rightarrow> process \<Rightarrow> int" where
  "cmpSRT a b =
     (if remaining a = remaining b then arrival a - arrival b else remaining a - remaining b)"

definition cmpPriority :: "process \<Rightarrow> process \<Rightarrow> int" where
  "cmpPriority a b =
     (if priority a = priority b then arrival a - arrival b else priority a - priority b)"

text \<open>
  The numbers of the source are IEEE 754 doubles. The fields of a process hold integers,
  and sums and differences of integers are exact in doubles as long as they stay within
  \<open>2^53\<close>, so they are \<open>int\<close> here. A quotient and a difference of quotients are rounded:
  \<open>fl x\<close> is the double nearest to the rational \<open>x\<close>, a significand of 53 bits times a
  power of two, ties going to the even significand (overflow and subnormal numbers, which
  the ratios of processes do not reach, are left out). \<open>rne\<close> rounds to the nearest integer,
  ties to even; \<open>expo x\<close> is the exponent \<open>e\<close> with \<open>2^e \<le> x < 2^(e+1)\<close>.
\<close>

definition rne :: "rat \<Rightarrow> int" where
  "rne q =
     (let f = \<lfloor>q\<rfloor>; r = q - of_int f
      in if r < 1 / 2 then f else if 1 / 2 < r then f + 1 else if even f then f else f + 1)"

definition expo :: "rat \<Rightarrow> int" where
  "expo x = (if 1 \<le> x then bitlen \<lfloor>x\<rfloor> - 1 else - bitlen (\<lceil>1 / x\<rceil> - 1))"

definition fl_pos :: "rat \<Rightarrow> rat" where
  "fl_pos x = of_int (rne (x / 2 powi (expo x - 52))) * 2 powi (expo x - 52)"

definition fl :: "rat \<Rightarrow> rat" where
  "fl x = (if x = 0 then 0 else if 0 < x then fl_pos x else - fl_pos (- x))"

text \<open>
  The response ratio \<open>(waiting + burst) / burst\<close> with \<open>waiting = max 0 (currentTime - arrival)\<close>
  (lines 80-81), the quotient rounded to a double; the argument \<open>currentTime\<close> of the source
  is \<open>now\<close> here (the name is a field of the state). A burst of zero, which gives \<open>Infinity\<close>
  or \<open>NaN\<close> in the source, is excluded by the data model (burst is at least 1) and by the
  hypotheses of what is proved about the ratio.
\<close>

definition responseRatio :: "int \<Rightarrow> process \<Rightarrow> rat" where
  "responseRatio now p =
     fl ((of_int (max 0 (now - arrival p)) + of_int (burst p)) / of_int (burst p))"

text \<open>
  The comparator of HRN (lines 84-88): the difference of the two ratios is a double, its
  absolute value is compared with the double nearest to \<open>0.001\<close>.
\<close>

definition cmpHRN :: "int \<Rightarrow> process \<Rightarrow> process \<Rightarrow> rat" where
  "cmpHRN now a b =
     (if \<bar>fl (responseRatio now a - responseRatio now b)\<bar> < fl (1 / 1000)
      then of_int (arrival a - arrival b)
      else fl (responseRatio now b - responseRatio now a))"

text \<open>
  \<open>SchedulingAlgorithms.selectNext\<close>. The HRN case of the source returns a copy of the
  chosen process with one more field, \<open>responseRatio\<close>, which nothing reads afterwards; the
  model returns the process.
\<close>

definition selectNext :: "process list \<Rightarrow> int \<Rightarrow> string \<Rightarrow> process option" where
  "selectNext processes now algorithm =
     (if processes = [] then None
      else if algorithm = ''FCFS'' then first (sort_js cmpFCFS processes)
      else if algorithm = ''SJF'' then first (sort_js cmpSJF processes)
      else if algorithm = ''SRT'' then first (sort_js cmpSRT processes)
      else if algorithm = ''Priority'' then first (sort_js cmpPriority processes)
      else if algorithm = ''HRN'' then first (sort_js (cmpHRN now) processes)
      else if algorithm = ''RR'' then first processes
      else first processes)"

section \<open>The step of the simulation (lines 130-293)\<close>

text \<open>Every process of the set has nothing left to run (lines 146-150).\<close>

definition allCompleted :: "process list \<Rightarrow> bool" where
  "allCompleted processes = list_all (\<lambda>p. remaining p = 0) processes"

text \<open>Arrivals (lines 152-165): the processes that arrive now, pushed unless already queued.\<close>

definition arrivedProcesses :: "simulation_state \<Rightarrow> process list \<Rightarrow> process list" where
  "arrivedProcesses state processes =
     filter (\<lambda>p. arrival p = currentTime state
                \<and> pid p \<notin> set (completedProcesses state)
                \<and> remaining p > 0) processes"

definition admit :: "process list \<Rightarrow> process \<Rightarrow> process list" where
  "admit queue p =
     (if find (\<lambda>rp. pid rp = pid p) queue = None then queue @ [p] else queue)"

definition admitArrivals :: "simulation_state \<Rightarrow> process list \<Rightarrow> process list" where
  "admitArrivals state processes = foldl admit (readyQueue state) (arrivedProcesses state processes)"

text \<open>
  The value of \<open>processes.find(p => p.id === i)?.remaining\<close>; \<open>None\<close> is \<open>undefined\<close>, which
  is neither \<open>=== 0\<close> nor \<open>> 0\<close>.
\<close>

definition liveRemaining :: "process list \<Rightarrow> int \<Rightarrow> int option" where
  "liveRemaining processes i = map_option remaining (find (\<lambda>p. pid p = i) processes)"

text \<open>
  The part of the state that the step works on after the arrivals: the local variables
  \<open>currentProcess\<close>, \<open>newReadyQueue\<close>, \<open>newCompletedProcesses\<close> and \<open>newQuantumRemaining\<close>.
\<close>

record locals =
  l_current :: "process option"
  l_queue :: "process list"
  l_completed :: "int list"
  l_quantum :: int

text \<open>Completion of the current process (lines 171-182).\<close>

definition retire :: "process list \<Rightarrow> locals \<Rightarrow> locals" where
  "retire processes l =
     (case l_current l of
        None \<Rightarrow> l
      | Some c \<Rightarrow>
          if liveRemaining processes (pid c) = Some 0
          then l\<lparr>l_completed := l_completed l @ [pid c],
                 l_queue := filter (\<lambda>p. pid p \<noteq> pid c) (l_queue l),
                 l_current := None,
                 l_quantum := 0\<rparr>
          else l)"

text \<open>
  Expiry of the quantum (lines 184-199). The test reads \<open>quantumRemaining\<close> of the state the
  step started from, not the local variable.
\<close>

definition expireQuantum :: "simulation_state \<Rightarrow> process list \<Rightarrow> string \<Rightarrow> locals \<Rightarrow> locals" where
  "expireQuantum state processes algorithm l =
     (case l_current l of
        None \<Rightarrow> l
      | Some c \<Rightarrow>
          if algorithm = ''RR'' \<and> quantumRemaining state = 0 \<and> length (l_queue l) > 1
          then
            (let q = filter (\<lambda>p. pid p \<noteq> pid c) (l_queue l);
                 q' = (case find (\<lambda>p. pid p = pid c) processes of
                         None \<Rightarrow> q
                       | Some cs \<Rightarrow> if remaining cs > 0 then q @ [cs] else q)
             in l\<lparr>l_queue := q', l_current := None\<rparr>)
          else l)"

text \<open>Selection of the next process (lines 201-237).\<close>

definition availableProcesses :: "process list \<Rightarrow> locals \<Rightarrow> process list" where
  "availableProcesses processes l =
     filter (\<lambda>p. (case liveRemaining processes (pid p) of None \<Rightarrow> False | Some r \<Rightarrow> r > 0)
                \<and> pid p \<notin> set (l_completed l)) (l_queue l)"

definition selectPhase :: "simulation_state \<Rightarrow> process list \<Rightarrow> string \<Rightarrow> int \<Rightarrow> locals \<Rightarrow> locals" where
  "selectPhase state processes algorithm quantum l =
     (if l_current l = None \<or> (l_current l \<noteq> None \<and> (algorithm = ''SRT'' \<or> algorithm = ''RR''))
      then
        (let available = availableProcesses processes l in
         if length available > 0
         then
           (let nextSelected = selectNext available (currentTime state) algorithm in
            if l_current l \<noteq> None \<and> nextSelected \<noteq> None
               \<and> map_option pid (l_current l) \<noteq> map_option pid nextSelected
               \<and> algorithm \<noteq> ''SRT'' \<and> algorithm \<noteq> ''RR''
            then l
            else
              (if nextSelected \<noteq> None \<and> algorithm = ''RR''
               then l\<lparr>l_current := nextSelected, l_quantum := quantum\<rparr>
               else l\<lparr>l_current := nextSelected\<rparr>))
         else l)
      else l)"

text \<open>
  The chart (lines 239-282): the last entry is extended when it has the label to be
  written, otherwise an entry for \<open>[currentTime, currentTime + 1)\<close> is pushed.
\<close>

definition record_tick :: "gantt_entry list \<Rightarrow> string \<Rightarrow> string \<Rightarrow> int \<Rightarrow> gantt_entry list" where
  "record_tick chart label col t =
     (if chart \<noteq> [] \<and> process (last chart) = label
      then butlast chart @ [(last chart)\<lparr>end_time := t + 1\<rparr>]
      else chart @ [\<lparr>process = label, start = t, end_time = t + 1, entry_color = col\<rparr>])"

definition hasUnArrived :: "simulation_state \<Rightarrow> process list \<Rightarrow> bool" where
  "hasUnArrived state processes =
     list_ex (\<lambda>p. arrival p > currentTime state \<and> remaining p > 0) processes"

definition newGanttChart :: "simulation_state \<Rightarrow> process list \<Rightarrow> locals \<Rightarrow> gantt_entry list" where
  "newGanttChart state processes l =
     (case l_current l of
        Some c \<Rightarrow> record_tick (ganttChart state) (name c) (color c) (currentTime state)
      | None \<Rightarrow>
          if hasUnArrived state processes
          then record_tick (ganttChart state) ''IDLE'' ''#E5E7EB'' (currentTime state)
          else ganttChart state)"

definition tickQuantum :: "string \<Rightarrow> locals \<Rightarrow> int" where
  "tickQuantum algorithm l =
     (if l_current l \<noteq> None \<and> algorithm = ''RR'' \<and> l_quantum l > 0
      then l_quantum l - 1 else l_quantum l)"

text \<open>The local variables after the arrivals, the completion, the expiry and the selection.\<close>

definition decide :: "simulation_state \<Rightarrow> process list \<Rightarrow> string \<Rightarrow> int \<Rightarrow> locals" where
  "decide state processes algorithm quantum =
     selectPhase state processes algorithm quantum
       (expireQuantum state processes algorithm
          (retire processes
             \<lparr>l_current = currentProcess state,
              l_queue = admitArrivals state processes,
              l_completed = completedProcesses state,
              l_quantum = quantumRemaining state\<rparr>))"

text \<open>
  The array \<open>availableProcesses\<close> that the step hands to the selector (lines 207-219): the
  entries of the ready queue, that is the copies made when the processes were queued.
\<close>

definition selectorInput :: "simulation_state \<Rightarrow> process list \<Rightarrow> string \<Rightarrow> process list" where
  "selectorInput state processes algorithm =
     availableProcesses processes
       (expireQuantum state processes algorithm
          (retire processes
             \<lparr>l_current = currentProcess state,
              l_queue = admitArrivals state processes,
              l_completed = completedProcesses state,
              l_quantum = quantumRemaining state\<rparr>))"

text \<open>\<open>executeSimulationStep\<close>, the \<open>advance\<close> of the specification.\<close>

definition executeSimulationStep ::
  "simulation_state \<Rightarrow> process list \<Rightarrow> string \<Rightarrow> int \<Rightarrow> simulation_state" where
  "executeSimulationStep state processes algorithm quantum =
     (if allCompleted processes then state\<lparr>isRunning := False\<rparr>
      else
        (let l = decide state processes algorithm quantum in
         state\<lparr>currentTime := currentTime state + 1,
               ganttChart := newGanttChart state processes l,
               currentProcess := l_current l,
               readyQueue := l_queue l,
               completedProcesses := l_completed l,
               quantumRemaining := tickQuantum algorithm l\<rparr>))"

section \<open>The driver (lines 338-346 and 404-435)\<close>

text \<open>The state the reducer starts from, which is also the state after \<open>RESET\<close>.\<close>

definition initialState :: simulation_state where
  "initialState =
     \<lparr>currentTime = 0, ganttChart = [], currentProcess = None, readyQueue = [],
      completedProcesses = [], quantumRemaining = 0, isRunning = False\<rparr>"

text \<open>
  The update of the process list in the interval callback (lines 416-424): the remaining
  time of the process that is running goes down by one, not below zero.
\<close>

definition decrementCurrent :: "process list \<Rightarrow> process option \<Rightarrow> process list" where
  "decrementCurrent processes cur =
     (case cur of
        None \<Rightarrow> processes
      | Some c \<Rightarrow>
          map (\<lambda>p. if pid p = pid c then p\<lparr>remaining := max 0 (remaining p - 1)\<rparr> else p)
            processes)"

text \<open>
  One tick of the driver protocol as the specification words it: the decrement, then the
  step on the updated process list. This is not what the interval callback of the source
  does; that one is \<open>interval_callback\<close> below.
\<close>

definition driver_step ::
  "string \<Rightarrow> int \<Rightarrow> process list \<times> simulation_state \<Rightarrow> process list \<times> simulation_state" where
  "driver_step algorithm quantum c =
     (let processes' = decrementCurrent (fst c) (currentProcess (snd c))
      in (processes', executeSimulationStep (snd c) processes' algorithm quantum))"

text \<open>The configuration after \<open>n\<close> ticks from the initial state.\<close>

primrec driver_run ::
  "string \<Rightarrow> int \<Rightarrow> process list \<Rightarrow> nat \<Rightarrow> process list \<times> simulation_state" where
  "driver_run algorithm quantum processes 0 = (processes, initialState)"
| "driver_run algorithm quantum processes (Suc n) =
     driver_step algorithm quantum (driver_run algorithm quantum processes n)"

text \<open>
  The driver run to the end: it stops, as the interval callback does, when every process
  is complete. \<open>None\<close> means that the ticks allowed were not enough.
\<close>

fun drive ::
  "nat \<Rightarrow> string \<Rightarrow> int \<Rightarrow> process list \<times> simulation_state
     \<Rightarrow> (process list \<times> simulation_state) option" where
  "drive 0 algorithm quantum c = (if allCompleted (fst c) then Some c else None)"
| "drive (Suc n) algorithm quantum c =
     (if allCompleted (fst c) then Some c
      else drive n algorithm quantum (driver_step algorithm quantum c))"

text \<open>
  The interval callback of the source (lines 404-435), which runs while the state is
  running: when every process is complete it dispatches \<open>PAUSE\<close>; otherwise it queues the
  decrement of the running process and dispatches \<open>STEP\<close> with the process list that its
  closure holds (lines 395-397), which is the list from before the decrement. The step of a
  tick therefore sees the remaining times of one tick earlier. \<open>auto_run\<close> is the
  configuration after \<open>START\<close> and \<open>n\<close> calls of the callback.
\<close>

definition interval_callback ::
  "string \<Rightarrow> int \<Rightarrow> process list \<times> simulation_state \<Rightarrow> process list \<times> simulation_state" where
  "interval_callback algorithm quantum c =
     (if \<not> isRunning (snd c) then c
      else if allCompleted (fst c) then (fst c, (snd c)\<lparr>isRunning := False\<rparr>)
      else (decrementCurrent (fst c) (currentProcess (snd c)),
            executeSimulationStep (snd c) (fst c) algorithm quantum))"

primrec auto_run ::
  "string \<Rightarrow> int \<Rightarrow> process list \<Rightarrow> nat \<Rightarrow> process list \<times> simulation_state" where
  "auto_run algorithm quantum processes 0 = (processes, initialState\<lparr>isRunning := True\<rparr>)"
| "auto_run algorithm quantum processes (Suc n) =
     interval_callback algorithm quantum (auto_run algorithm quantum processes n)"

section \<open>Data of the scenarios\<close>

text \<open>
  A process that has not run yet, as the initial data and the reset make them: what remains
  is the whole burst.
\<close>

definition fresh :: "int \<Rightarrow> string \<Rightarrow> int \<Rightarrow> int \<Rightarrow> process" where
  "fresh i n a b =
     \<lparr>pid = i, name = n, arrival = a, burst = b, priority = 1, remaining = b,
      color = ''#FF6B6B''\<rparr>"

definition segment :: "string \<Rightarrow> int \<Rightarrow> int \<Rightarrow> gantt_entry" where
  "segment n a b = \<lparr>process = n, start = a, end_time = b, entry_color = ''#FF6B6B''\<rparr>"

section \<open>The properties stated of the selector, as predicates\<close>

text \<open>
  Two response ratios are a tie for the comparator of HRN when the double that is their
  difference is less than the double \<open>0.001\<close> in absolute value (line 85).
\<close>

definition near_tie :: "int \<Rightarrow> process \<Rightarrow> process \<Rightarrow> bool" where
  "near_tie now a b \<longleftrightarrow> \<bar>fl (responseRatio now a - responseRatio now b)\<bar> < fl (1 / 1000)"



section \<open>Invariants\<close>

text \<open>
  The process set as the data model has it: the ids are unique, arrival times and
  remaining times are not negative.
\<close>

definition well_formed :: "process list \<Rightarrow> bool" where
  "well_formed processes \<longleftrightarrow>
     distinct (map pid processes)
     \<and> (\<forall>p\<in>set processes. 0 \<le> arrival p \<and> 0 \<le> remaining p)"

text \<open>
  The ready queue, the current process and the completed set: no id is twice in the queue,
  no queued id and not the current one is completed, and the current process is queued.
\<close>

definition queue_ok :: "process option \<Rightarrow> process list \<Rightarrow> int list \<Rightarrow> bool" where
  "queue_ok cur queue completed \<longleftrightarrow>
     distinct (map pid queue)
     \<and> (\<forall>q\<in>set queue. pid q \<notin> set completed)
     \<and> (\<forall>c. cur = Some c \<longrightarrow> pid c \<notin> set completed \<and> (\<exists>q\<in>set queue. pid q = pid c))"

definition locals_ok :: "locals \<Rightarrow> bool" where
  "locals_ok l = queue_ok (l_current l) (l_queue l) (l_completed l)"

definition state_ok :: "simulation_state \<Rightarrow> bool" where
  "state_ok s = queue_ok (currentProcess s) (readyQueue s) (completedProcesses s)"

text \<open>An id that is neither queued nor the current one.\<close>

definition absent :: "int \<Rightarrow> locals \<Rightarrow> bool" where
  "absent i l \<longleftrightarrow>
     (\<forall>q\<in>set (l_queue l). pid q \<noteq> i) \<and> (\<forall>c. l_current l = Some c \<longrightarrow> pid c \<noteq> i)"

text \<open>
  The timeline: the starts do not decrease, neighbours have different labels, every entry
  is a non-empty interval that ends by the time \<open>t\<close>.
\<close>

definition timeline_ok :: "gantt_entry list \<Rightarrow> int \<Rightarrow> bool" where
  "timeline_ok chart t \<longleftrightarrow>
     sorted (map start chart)
     \<and> distinct_adj (map process chart)
     \<and> (\<forall>e\<in>set chart. start e < end_time e \<and> end_time e \<le> t)"

text \<open>
  The entries of a timeline tile \<open>[a, b)\<close>: the first starts at \<open>a\<close>, each one starts where
  the one before ends, the last ends at \<open>b\<close>, none is empty.
\<close>

fun tiles :: "int \<Rightarrow> gantt_entry list \<Rightarrow> int \<Rightarrow> bool" where
  "tiles a [] b \<longleftrightarrow> a = b"
| "tiles a (e # es) b \<longleftrightarrow> start e = a \<and> start e < end_time e \<and> tiles (end_time e) es b"

text \<open>
  Every process with something left to run that arrived by the time \<open>t\<close> is queued, and
  every process in the completed set has nothing left.
\<close>

definition present :: "process list \<Rightarrow> int \<Rightarrow> process list \<Rightarrow> bool" where
  "present processes t queue \<longleftrightarrow>
     (\<forall>p\<in>set processes. 0 < remaining p \<and> arrival p \<le> t \<longrightarrow> (\<exists>q\<in>set queue. pid q = pid p))"

definition finished :: "process list \<Rightarrow> int list \<Rightarrow> bool" where
  "finished processes completed \<longleftrightarrow>
     (\<forall>p\<in>set processes. pid p \<in> set completed \<longrightarrow> remaining p = 0)"

definition kept :: "process list \<Rightarrow> int \<Rightarrow> locals \<Rightarrow> bool" where
  "kept processes t l \<longleftrightarrow>
     present processes t (l_queue l) \<and> finished processes (l_completed l)"

definition cover_inv :: "process list \<Rightarrow> simulation_state \<Rightarrow> bool" where
  "cover_inv processes s \<longleftrightarrow>
     well_formed processes
     \<and> tiles 0 (ganttChart s) (currentTime s)
     \<and> present processes (currentTime s - 1) (readyQueue s)
     \<and> finished processes (completedProcesses s)"

section \<open>The termination check\<close>

text \<open>
  C5. When every process of the process set has remaining = 0 (the empty process set
  included), the step returns the prior state with the running flag cleared: the current
  time, the timeline, the current process, the ready queue, the completed set and the
  quantum remaining are those of the prior state.
\<close>

theorem advance_all_completed:
  assumes "\<forall>p \<in> set processes. remaining p = 0"
  shows "executeSimulationStep state processes algorithm quantum = state\<lparr>isRunning := False\<rparr>
    \<and> isRunning (executeSimulationStep state processes algorithm quantum) = False
    \<and> currentTime (executeSimulationStep state processes algorithm quantum) = currentTime state
    \<and> ganttChart (executeSimulationStep state processes algorithm quantum) = ganttChart state
    \<and> currentProcess (executeSimulationStep state processes algorithm quantum)
          = currentProcess state
    \<and> readyQueue (executeSimulationStep state processes algorithm quantum) = readyQueue state
    \<and> completedProcesses (executeSimulationStep state processes algorithm quantum)
          = completedProcesses state
    \<and> quantumRemaining (executeSimulationStep state processes algorithm quantum)
          = quantumRemaining state"
  using assms by (simp add: executeSimulationStep_def allCompleted_def list_all_iff)

theorem advance_all_completed_witness:
  "executeSimulationStep
     \<lparr>currentTime = 3, ganttChart = [segment ''P1'' 0 3],
      currentProcess = Some (fresh 1 ''P1'' 0 3), readyQueue = [fresh 1 ''P1'' 0 3],
      completedProcesses = [], quantumRemaining = 1, isRunning = True\<rparr>
     [(fresh 1 ''P1'' 0 3)\<lparr>remaining := 0\<rparr>] ''RR'' 2
   = \<lparr>currentTime = 3, ganttChart = [segment ''P1'' 0 3],
      currentProcess = Some (fresh 1 ''P1'' 0 3), readyQueue = [fresh 1 ''P1'' 0 3],
      completedProcesses = [], quantumRemaining = 1, isRunning = False\<rparr>
   \<and> executeSimulationStep initialState [] ''FCFS'' 2 = initialState\<lparr>isRunning := False\<rparr>"
  using advance_all_completed [of "[(fresh 1 ''P1'' 0 3)\<lparr>remaining := 0\<rparr>]"]
    advance_all_completed [of "[]" initialState "''FCFS''" 2]
  by simp

section \<open>The scenarios of Round Robin and of SRT\<close>

text \<open>
  Once every process is complete the driver stays where it is, so more ticks than needed
  give the same result.
\<close>

lemma drive_more:
  "drive n algorithm quantum c = Some r \<Longrightarrow> drive (n + k) algorithm quantum c = Some r"
proof (induction n arbitrary: c)
  case 0
  then show ?case by (cases k) (auto split: if_splits)
next
  case (Suc n)
  then show ?case by (auto split: if_splits)
qed

text \<open>
  C2. Processes P1 and P2, both with arrival 0 and burst 5, under RR with quantum 2, driven
  from the initial state (decrement the remaining time of the current process, then step)
  until all are complete. The claim expects the timeline P1 0-2, P2 2-4, P1 4-6, P2 6-8,
  P1 8-9, P2 9-10. The step gives another one: the selection runs at every tick under RR
  and sets the quantum back to 2 each time, so the quantum left is 1 after every tick, the
  expiry (which needs 0) never happens, and P1 runs to its end before P2 starts. Eleven
  ticks are enough, and any larger number gives the same.
\<close>

theorem rr_quantum_two_runs_to_completion:
  "map_option (ganttChart \<circ> snd)
     (drive (11 + k) ''RR'' 2 ([fresh 1 ''P1'' 0 5, fresh 2 ''P2'' 0 5], initialState))
   = Some [segment ''P1'' 0 5, segment ''P2'' 5 10]"
proof -
  have "map_option (ganttChart \<circ> snd)
     (drive 11 ''RR'' 2 ([fresh 1 ''P1'' 0 5, fresh 2 ''P2'' 0 5], initialState))
   = Some [segment ''P1'' 0 5, segment ''P2'' 5 10]"
    by code_simp
  then show ?thesis
    by (auto dest: drive_more [where k = k])
qed

text \<open>
  The same scenario on the order of the source's callback: still no rotation, and each
  process holds the processor one tick longer than its burst.
\<close>

lemma rr_quantum_two_callback:
  "ganttChart (snd (auto_run ''RR'' 2 [fresh 1 ''P1'' 0 5, fresh 2 ''P2'' 0 5] 13))
     = [segment ''P1'' 0 6, segment ''P2'' 6 12]
   \<and> \<not> isRunning (snd (auto_run ''RR'' 2 [fresh 1 ''P1'' 0 5, fresh 2 ''P2'' 0 5] 13))"
  by code_simp


text \<open>
  Under SRT the selection block runs at every step, and the process it leaves as the
  current one is the choice of the selector among the entries of the ready queue.
\<close>

lemma srt_current_is_selected:
  assumes "\<not> allCompleted processes" and "selectorInput state processes ''SRT'' \<noteq> []"
  shows "currentProcess (executeSimulationStep state processes ''SRT'' quantum)
           = selectNext (selectorInput state processes ''SRT'') (currentTime state) ''SRT''"
  using assms
  by (auto simp: executeSimulationStep_def decide_def selectPhase_def selectorInput_def Let_def)


text \<open>
  That the queue entry and not the process list is compared shows in the outcome when P2
  arrives at tick 4: P1 has 1 left and P2 has 2, yet P2 takes the processor, because the
  entry of P1 still says 5.
\<close>

lemma srt_stale_snapshot_preempts:
  "decrementCurrent (fst (driver_run ''SRT'' quantum [fresh 1 ''P1'' 0 5, fresh 2 ''P2'' 4 2] 4))
        (currentProcess (snd (driver_run ''SRT'' quantum [fresh 1 ''P1'' 0 5, fresh 2 ''P2'' 4 2] 4)))
      = [(fresh 1 ''P1'' 0 5)\<lparr>remaining := 1\<rparr>, fresh 2 ''P2'' 4 2]
   \<and> selectorInput (snd (driver_run ''SRT'' quantum [fresh 1 ''P1'' 0 5, fresh 2 ''P2'' 4 2] 4))
        [(fresh 1 ''P1'' 0 5)\<lparr>remaining := 1\<rparr>, fresh 2 ''P2'' 4 2] ''SRT''
      = [fresh 1 ''P1'' 0 5, fresh 2 ''P2'' 4 2]
   \<and> map_option (ganttChart \<circ> snd)
        (drive 8 ''SRT'' quantum ([fresh 1 ''P1'' 0 5, fresh 2 ''P2'' 4 2], initialState))
      = Some [segment ''P1'' 0 4, segment ''P2'' 4 6, segment ''P1'' 6 7]"
  by code_simp

section \<open>The sort and the selector\<close>

lemma set_insert_sorted: "set (insert_sorted cmp x ys) = insert x (set ys)"
  by (induction ys) auto

lemma set_sort_js: "set (sort_js cmp xs) = set xs"
  by (induction xs) (simp_all add: sort_js_def set_insert_sorted)

lemma sort_js_Cons: "sort_js cmp (x # xs) = insert_sorted cmp x (sort_js cmp xs)"
  by (simp add: sort_js_def)

lemma first_Some_mem: "first xs = Some r \<Longrightarrow> r \<in> set xs"
  by (cases xs) (auto simp: first_def)

lemma first_sort_js_Cons:
  "first (sort_js cmp (x # xs)) =
     (case first (sort_js cmp xs) of
        None \<Rightarrow> Some x
      | Some h \<Rightarrow> if cmp x h \<le> 0 then Some x else Some h)"
  by (cases "sort_js cmp xs") (simp_all add: sort_js_Cons first_def)

lemma find_cong_set:
  "(\<And>x. x \<in> set xs \<Longrightarrow> P x = Q x) \<Longrightarrow> find P xs = find Q xs"
  by (induction xs) auto

lemma first_sort_js_find:
  assumes tr: "\<forall>x\<in>set xs. \<forall>y\<in>set xs. \<forall>z\<in>set xs. cmp x y \<le> 0 \<longrightarrow> cmp y z \<le> 0 \<longrightarrow> cmp x z \<le> 0"
    and tot: "\<forall>x\<in>set xs. \<forall>y\<in>set xs. cmp x y \<le> 0 \<or> cmp y x \<le> 0"
  shows "first (sort_js cmp xs) = find (\<lambda>c. \<forall>d\<in>set xs. cmp c d \<le> 0) xs"
  using assms
proof (induction xs)
  case Nil
  then show ?case by (simp add: sort_js_def first_def)
next
  case (Cons x xs)
  have tr3: "cmp a b \<le> 0 \<Longrightarrow> cmp b c \<le> 0 \<Longrightarrow> cmp a c \<le> 0"
    if "a \<in> set (x # xs)" "b \<in> set (x # xs)" "c \<in> set (x # xs)" for a b c
    using Cons.prems(1) that by blast
  have tot2: "cmp a b \<le> 0 \<or> cmp b a \<le> 0"
    if "a \<in> set (x # xs)" "b \<in> set (x # xs)" for a b
    using Cons.prems(2) that by blast
  have sub: "a \<in> set (x # xs)" if "a \<in> set xs" for a using that by simp
  have tr': "\<forall>a\<in>set xs. \<forall>b\<in>set xs. \<forall>c\<in>set xs. cmp a b \<le> 0 \<longrightarrow> cmp b c \<le> 0 \<longrightarrow> cmp a c \<le> 0"
    using tr3 sub by blast
  have tot': "\<forall>a\<in>set xs. \<forall>b\<in>set xs. cmp a b \<le> 0 \<or> cmp b a \<le> 0"
    using tot2 sub by blast
  have IH: "first (sort_js cmp xs) = find (\<lambda>c. \<forall>d\<in>set xs. cmp c d \<le> 0) xs"
    using Cons.IH [OF tr' tot'] .
  have xmem: "x \<in> set (x # xs)" by simp
  have refl: "cmp x x \<le> 0" using tot2 [OF xmem xmem] by simp
  show ?case
  proof (cases "first (sort_js cmp xs)")
    case None
    then have "sort_js cmp xs = []" by (cases "sort_js cmp xs") (simp_all add: first_def)
    then have "xs = []" using set_sort_js [of cmp xs] by simp
    then show ?thesis using refl by (simp add: sort_js_def first_def)
  next
    case (Some h)
    then have hfind: "find (\<lambda>c. \<forall>d\<in>set xs. cmp c d \<le> 0) xs = Some h" using IH by simp
    then have hmem: "h \<in> set xs" and hmin: "\<And>d. d \<in> set xs \<Longrightarrow> cmp h d \<le> 0"
      by (auto simp: find_Some_iff)
    show ?thesis
    proof (cases "cmp x h \<le> 0")
      case True
      have "cmp x d \<le> 0" if d: "d \<in> set (x # xs)" for d
      proof (cases "d = x")
        case True
        then show ?thesis using refl by simp
      next
        case False
        then have d': "d \<in> set xs" using d by simp
        show ?thesis using tr3 [OF xmem sub [OF hmem] d \<open>cmp x h \<le> 0\<close> hmin [OF d']] .
      qed
      then have "find (\<lambda>c. \<forall>d\<in>set (x # xs). cmp c d \<le> 0) (x # xs) = Some x"
        by (simp only: find.simps) simp
      moreover have "first (sort_js cmp (x # xs)) = Some x"
        using Some True by (simp add: first_sort_js_Cons)
      ultimately show ?thesis by simp
    next
      case False
      then have hx: "cmp h x \<le> 0" using tot2 [OF xmem sub [OF hmem]] by simp
      have eq: "find (\<lambda>c. \<forall>d\<in>set (x # xs). cmp c d \<le> 0) xs
                = find (\<lambda>c. \<forall>d\<in>set xs. cmp c d \<le> 0) xs"
      proof (rule find_cong_set)
        fix c assume c: "c \<in> set xs"
        show "(\<forall>d\<in>set (x # xs). cmp c d \<le> 0) = (\<forall>d\<in>set xs. cmp c d \<le> 0)"
        proof
          assume "\<forall>d\<in>set (x # xs). cmp c d \<le> 0"
          then show "\<forall>d\<in>set xs. cmp c d \<le> 0" using sub by blast
        next
          assume a: "\<forall>d\<in>set xs. cmp c d \<le> 0"
          then have "cmp c h \<le> 0" using hmem by blast
          then have "cmp c x \<le> 0" using tr3 [OF sub [OF c] sub [OF hmem] xmem] hx by blast
          then show "\<forall>d\<in>set (x # xs). cmp c d \<le> 0" using a by simp
        qed
      qed
      have "\<not> (\<forall>d\<in>set (x # xs). cmp x d \<le> 0)" using False sub [OF hmem] by blast
      then have "find (\<lambda>c. \<forall>d\<in>set (x # xs). cmp c d \<le> 0) (x # xs) = Some h"
        using eq hfind by (simp only: find.simps if_False)
      moreover have "first (sort_js cmp (x # xs)) = Some h"
        using Some False by (simp add: first_sort_js_Cons)
      ultimately show ?thesis by simp
    qed
  qed
qed

lemma selectNext_mem: "selectNext xs t a = Some r \<Longrightarrow> r \<in> set xs"
  using first_Some_mem [of "sort_js cmpFCFS xs" r] first_Some_mem [of "sort_js cmpSJF xs" r]
    first_Some_mem [of "sort_js cmpSRT xs" r] first_Some_mem [of "sort_js cmpPriority xs" r]
    first_Some_mem [of "sort_js (cmpHRN t) xs" r] first_Some_mem [of xs r]
  by (auto simp: selectNext_def set_sort_js split: if_splits)

lemma first_sort_js_Some: "xs \<noteq> [] \<Longrightarrow> \<exists>r. first (sort_js cmp xs) = Some r"
  by (cases xs) (auto simp: first_sort_js_Cons split: option.splits)

lemma selectNext_Some: "xs \<noteq> [] \<Longrightarrow> \<exists>r. selectNext xs t a = Some r"
  using first_sort_js_Some [of xs cmpFCFS] first_sort_js_Some [of xs cmpSJF]
    first_sort_js_Some [of xs cmpSRT] first_sort_js_Some [of xs cmpPriority]
    first_sort_js_Some [of xs "cmpHRN t"]
  by (cases xs) (simp_all add: selectNext_def first_def)

section \<open>Unknown algorithm names\<close>

text \<open>
  C6, as stated, fails: with an algorithm name that is none of the six, the selector
  returns the head of the list it was given, here the process with id 2 although the
  process with id 1 is a candidate.
\<close>

theorem unknown_algorithm_counterexample:
  "selectNext [fresh 2 ''P2'' 0 3, fresh 1 ''P1'' 0 3] 0 ''LIFO'' = Some (fresh 2 ''P2'' 0 3)
   \<and> pid (fresh 1 ''P1'' 0 3) < pid (fresh 2 ''P2'' 0 3)"
  by (simp add: selectNext_def first_def fresh_def)

text \<open>
  C6, amended. For every non-empty candidate list and every algorithm name that is not one
  of FCFS, SJF, SRT, Priority, HRN and RR, the selector does not fail and returns the first
  candidate of the list as given (the order of the ready queue), whatever the ids are.
\<close>

theorem selectNext_unknown_algorithm:
  assumes "processes \<noteq> []"
    and "algorithm \<notin> {''FCFS'', ''SJF'', ''SRT'', ''Priority'', ''HRN'', ''RR''}"
  shows "selectNext processes now algorithm = Some (hd processes)"
  using assms by (cases processes) (simp_all add: selectNext_def first_def)

theorem selectNext_unknown_algorithm_witness:
  "selectNext [fresh 3 ''P3'' 4 8, fresh 1 ''P1'' 0 5] 7 ''Lottery'' = Some (fresh 3 ''P3'' 4 8)"
  using selectNext_unknown_algorithm [of "[fresh 3 ''P3'' 4 8, fresh 1 ''P1'' 0 5]" "''Lottery''" 7]
  by simp

section \<open>Shortest job first\<close>

lemma cmpSJF_le: "cmpSJF a b \<le> 0 \<longleftrightarrow> burst a < burst b \<or> (burst a = burst b \<and> arrival a \<le> arrival b)"
  by (auto simp: cmpSJF_def)

text \<open>
  C8, as stated, fails on its last part: of two candidates with the same burst and the same
  arrival the selector returns the one that stands first in the list, here the one with
  id 2, not the one with the least id.
\<close>

theorem sjf_id_tie_counterexample:
  "selectNext [fresh 2 ''P2'' 0 3, fresh 1 ''P1'' 0 3] 0 ''SJF'' = Some (fresh 2 ''P2'' 0 3)
   \<and> burst (fresh 1 ''P1'' 0 3) = burst (fresh 2 ''P2'' 0 3)
   \<and> arrival (fresh 1 ''P1'' 0 3) = arrival (fresh 2 ''P2'' 0 3)
   \<and> pid (fresh 1 ''P1'' 0 3) < pid (fresh 2 ''P2'' 0 3)"
  by (simp add: selectNext_def first_def fresh_def sort_js_def cmpSJF_def)

text \<open>
  C8, amended. For every non-empty candidate list the selector with SJF returns a candidate
  of minimal burst; among the candidates of that burst, one of minimal arrival; and among
  the candidates with that burst and that arrival, the one that stands first in the
  candidate list (the comparator does not look at the id, and the sort is stable).
\<close>

theorem selectNext_SJF:
  assumes "processes \<noteq> []"
  shows "\<exists>r. selectNext processes now ''SJF'' = Some r
           \<and> r \<in> set processes
           \<and> (\<forall>c\<in>set processes. burst r \<le> burst c)
           \<and> (\<forall>c\<in>set processes. burst c = burst r \<longrightarrow> arrival r \<le> arrival c)
           \<and> find (\<lambda>c. burst c = burst r \<and> arrival c = arrival r) processes = Some r"
proof -
  let ?P = "\<lambda>c. \<forall>d\<in>set processes. cmpSJF c d \<le> 0"
  have sel: "selectNext processes now ''SJF'' = first (sort_js cmpSJF processes)"
    using assms by (simp add: selectNext_def)
  have "first (sort_js cmpSJF processes) = find ?P processes"
    by (rule first_sort_js_find) (auto simp: cmpSJF_le)
  moreover obtain r where r: "selectNext processes now ''SJF'' = Some r"
    using selectNext_Some [OF assms] by blast
  ultimately have f: "find ?P processes = Some r" using sel by simp
  then obtain i where i: "i < length processes" "?P (processes ! i)" "r = processes ! i"
    and before: "\<forall>j<i. \<not> ?P (processes ! j)"
    unfolding find_Some_iff by blast
  have rmem: "r \<in> set processes" using i by simp
  have rmin: "\<And>d. d \<in> set processes \<Longrightarrow> cmpSJF r d \<le> 0" using i by simp
  have b: "\<forall>c\<in>set processes. burst r \<le> burst c"
  proof
    fix c assume "c \<in> set processes"
    from rmin [OF this] show "burst r \<le> burst c" by (auto simp: cmpSJF_le)
  qed
  have a: "\<forall>c\<in>set processes. burst c = burst r \<longrightarrow> arrival r \<le> arrival c"
  proof
    fix c assume "c \<in> set processes"
    from rmin [OF this] show "burst c = burst r \<longrightarrow> arrival r \<le> arrival c"
      by (auto simp: cmpSJF_le)
  qed
  have "\<not> (burst (processes ! j) = burst r \<and> arrival (processes ! j) = arrival r)" if "j < i" for j
  proof
    assume e: "burst (processes ! j) = burst r \<and> arrival (processes ! j) = arrival r"
    have "cmpSJF (processes ! j) d \<le> 0" if "d \<in> set processes" for d
      using rmin [OF that] e by (simp add: cmpSJF_le)
    then show False using before \<open>j < i\<close> by blast
  qed
  then have "find (\<lambda>c. burst c = burst r \<and> arrival c = arrival r) processes = Some r"
    unfolding find_Some_iff using i(1,3) by blast
  then show ?thesis using r rmem a b by blast
qed

theorem selectNext_SJF_witness:
  "\<exists>r. selectNext [fresh 2 ''P2'' 0 3, fresh 1 ''P1'' 0 3, fresh 3 ''P3'' 1 3] 0 ''SJF'' = Some r
      \<and> r = fresh 2 ''P2'' 0 3"
  using selectNext_SJF [of "[fresh 2 ''P2'' 0 3, fresh 1 ''P1'' 0 3, fresh 3 ''P3'' 1 3]" 0]
  by (auto simp: fresh_def)

section \<open>Rounding to doubles\<close>

lemma rne_of_int: "rne (of_int n) = n"
  by (simp add: rne_def)

lemma rne_mono:
  assumes "p \<le> q"
  shows "rne p \<le> rne q"
proof (cases "\<lfloor>p\<rfloor> = \<lfloor>q\<rfloor>")
  case True
  then show ?thesis using assms by (auto simp: rne_def Let_def)
next
  case False
  then have lt: "\<lfloor>p\<rfloor> < \<lfloor>q\<rfloor>" using assms floor_mono [of p q] by linarith
  have "rne p \<le> \<lfloor>p\<rfloor> + 1" by (auto simp: rne_def Let_def)
  moreover have "\<lfloor>q\<rfloor> \<le> rne q" by (auto simp: rne_def Let_def)
  ultimately show ?thesis using lt by linarith
qed

lemma rne_ge: "of_int n \<le> q \<Longrightarrow> n \<le> rne q"
  using rne_mono [of "of_int n" q] by (simp add: rne_of_int)

lemma rne_le: "q \<le> of_int n \<Longrightarrow> rne q \<le> n"
  using rne_mono [of q "of_int n"] by (simp add: rne_of_int)

lemma expo_bounds:
  assumes "0 < x"
  shows "2 powi (expo x) \<le> x \<and> x < 2 powi (expo x + 1)"
proof (cases "1 \<le> x")
  case True
  let ?n = "\<lfloor>x\<rfloor>"
  have n: "0 < ?n" using True by simp
  have b1: "1 \<le> bitlen ?n" using n bitlen_eq_zero_iff [of ?n] bitlen_nonneg [of ?n] by linarith
  have lo: "2 ^ nat (bitlen ?n - 1) \<le> ?n" and hi: "?n < 2 ^ nat (bitlen ?n)"
    using bitlen_bounds [OF n] by simp_all
  have "(of_int (2 ^ nat (bitlen ?n - 1)) :: rat) \<le> of_int ?n" using lo by (simp only: of_int_le_iff)
  then have l: "(2::rat) ^ nat (bitlen ?n - 1) \<le> x" by (simp add: le_floor_iff)
  have "?n + 1 \<le> 2 ^ nat (bitlen ?n)" using hi by simp
  then have "(of_int (?n + 1) :: rat) \<le> of_int (2 ^ nat (bitlen ?n))" by (simp only: of_int_le_iff)
  moreover have "x < of_int (?n + 1)" by linarith
  ultimately have h: "x < (2::rat) ^ nat (bitlen ?n)" by simp
  have e: "expo x = bitlen ?n - 1" using True by (simp add: expo_def)
  have "(2::rat) powi (bitlen ?n - 1) = 2 ^ nat (bitlen ?n - 1)"
    using b1 by (simp add: power_int_def)
  moreover have "(2::rat) powi (bitlen ?n - 1 + 1) = 2 ^ nat (bitlen ?n)"
    using b1 by (simp add: power_int_def)
  ultimately show ?thesis using l h e by simp
next
  case False
  let ?y = "1 / x"
  let ?m = "\<lceil>?y\<rceil>"
  have x1: "x < 1" using False by simp
  have y1: "1 < ?y" using assms x1 by (simp add: field_simps)
  have m2: "2 \<le> ?m" using y1 by linarith
  let ?k = "bitlen (?m - 1)"
  have p: "0 < ?m - 1" using m2 by simp
  have k1: "1 \<le> ?k" using p bitlen_eq_zero_iff [of "?m - 1"] bitlen_nonneg [of "?m - 1"] by linarith
  have lo: "2 ^ nat (?k - 1) \<le> ?m - 1" and hi: "?m - 1 < 2 ^ nat ?k"
    using bitlen_bounds [OF p] by simp_all
  have "(of_int (2 ^ nat (?k - 1)) :: rat) \<le> of_int (?m - 1)" using lo by (simp only: of_int_le_iff)
  moreover have "of_int (?m - 1) < ?y" by linarith
  ultimately have l: "(2::rat) ^ nat (?k - 1) < ?y" by simp
  have "?m \<le> 2 ^ nat ?k" using hi by simp
  then have "(of_int ?m :: rat) \<le> of_int (2 ^ nat ?k)" by (simp only: of_int_le_iff)
  then have c: "(of_int ?m :: rat) \<le> 2 ^ nat ?k" by simp
  have "?y \<le> of_int ?m" by linarith
  then have h: "?y \<le> (2::rat) ^ nat ?k" using c by (rule order_trans)
  have e: "expo x = - ?k" using False by (simp add: expo_def)
  have pk: "(2::rat) powi (- ?k) = 1 / 2 ^ nat ?k"
    using k1 by (simp add: power_int_def field_simps)
  have pk1: "(2::rat) powi (- ?k + 1) = 1 / 2 ^ nat (?k - 1)"
    using k1 by (simp add: power_int_def field_simps nat_diff_distrib)
  have "1 / 2 ^ nat ?k \<le> x"
    using h assms by (simp add: field_simps)
  moreover have "x < 1 / 2 ^ nat (?k - 1)"
    using l assms by (simp add: field_simps)
  ultimately show ?thesis using e pk pk1 by simp
qed

lemma ulp_pos: "0 < (2::rat) powi n"
  by simp

lemma powi_split: "(2::rat) powi e = 2 ^ 52 * 2 powi (e - 52)"
proof -
  have "(2::rat) powi (52 + (e - 52)) = 2 powi 52 * 2 powi (e - 52)"
    by (rule power_int_add) simp
  then show ?thesis by simp
qed

lemma powi_split': "(2::rat) powi (e + 1) = 2 ^ 53 * 2 powi (e - 52)"
proof -
  have "(2::rat) powi (53 + (e - 52)) = 2 powi 53 * 2 powi (e - 52)"
    by (rule power_int_add) simp
  moreover have "53 + (e - 52) = e + 1" by simp
  ultimately show ?thesis by simp
qed

lemma fl_pos_bounds:
  assumes "0 < x"
  shows "2 powi (expo x) \<le> fl_pos x \<and> fl_pos x \<le> 2 powi (expo x + 1)"
proof -
  let ?u = "(2::rat) powi (expo x - 52)"
  have u: "0 < ?u" by simp
  have lo: "2 ^ 52 * ?u \<le> x" and hi: "x < 2 ^ 53 * ?u"
    using expo_bounds [OF assms] powi_split [of "expo x"] powi_split' [of "expo x"] by simp_all
  have "(2::rat) ^ 52 \<le> x / ?u" using lo u by (simp add: pos_le_divide_eq)
  then have "of_int (2 ^ 52) \<le> x / ?u" by simp
  then have a: "2 ^ 52 \<le> rne (x / ?u)" by (rule rne_ge)
  have "x / ?u \<le> (2::rat) ^ 53" using hi u by (simp add: pos_divide_le_eq)
  then have "x / ?u \<le> of_int (2 ^ 53)" by simp
  then have b: "rne (x / ?u) \<le> 2 ^ 53" by (rule rne_le)
  have "(of_int (2 ^ 52) :: rat) \<le> of_int (rne (x / ?u))" using a by (simp only: of_int_le_iff)
  then have "2 ^ 52 * ?u \<le> of_int (rne (x / ?u)) * ?u" using u by simp
  moreover have "(of_int (rne (x / ?u)) :: rat) \<le> of_int (2 ^ 53)" using b by (simp only: of_int_le_iff)
  then have "of_int (rne (x / ?u)) * ?u \<le> 2 ^ 53 * ?u" using u by simp
  ultimately show ?thesis
    unfolding fl_pos_def powi_split [of "expo x"] powi_split' [of "expo x"] by simp
qed

lemma fl_pos_pos: "0 < x \<Longrightarrow> 0 < fl_pos x"
  using fl_pos_bounds [of x] ulp_pos [of "expo x"] by linarith



lemma fl_minus: "fl (- x) = - fl x"
  by (simp add: fl_def)

lemma fl_pos_iff: "0 < fl x \<longleftrightarrow> 0 < x"
  using fl_pos_pos [of x] fl_pos_pos [of "- x"] by (auto simp: fl_def)



lemma fl_abs: "\<bar>fl x\<bar> = fl \<bar>x\<bar>"
  using fl_pos_iff [of x] fl_pos_iff [of "- x"] fl_minus [of x]
  by (cases "0 \<le> x") (auto simp: abs_if fl_def)

section \<open>Highest response ratio next\<close>






text \<open>
  Where rounding decides: at time 3 the ratios of P1 (arrival 0, burst 125) and P2
  (arrival 2, burst 40) are 1.024 and 1.025. The doubles nearest to them differ by less
  than the double 0.001, so the two tie and P1, which arrived first, is returned, although
  the exact quotients are 0.001 apart.
\<close>

lemma hrn_rounding_tie:
  "selectNext [fresh 1 ''P1'' 0 125, fresh 2 ''P2'' 2 40] 3 ''HRN'' = Some (fresh 1 ''P1'' 0 125)
   \<and> near_tie 3 (fresh 1 ''P1'' 0 125) (fresh 2 ''P2'' 2 40)
   \<and> (41 / 40 :: rat) - 128 / 125 = 1 / 1000"
  by code_simp



section \<open>The phases of the step\<close>

lemma find_pid_None: "find (\<lambda>rp. pid rp = i) queue = None \<longleftrightarrow> i \<notin> pid ` set queue"
  by (auto simp: find_None_iff)

lemma pids_admit: "pid ` set (admit queue p) = insert (pid p) (pid ` set queue)"
  by (auto simp: admit_def find_pid_None)

lemma distinct_admit: "distinct (map pid queue) \<Longrightarrow> distinct (map pid (admit queue p))"
  by (auto simp: admit_def find_pid_None)

lemma pids_foldl_admit: "pid ` set (foldl admit queue ps) = pid ` set queue \<union> pid ` set ps"
  by (induction ps arbitrary: queue) (auto simp: pids_admit)

lemma distinct_foldl_admit:
  "distinct (map pid queue) \<Longrightarrow> distinct (map pid (foldl admit queue ps))"
  by (induction ps arbitrary: queue) (auto simp: distinct_admit)

lemma pids_admitArrivals:
  "pid ` set (admitArrivals state processes)
     = pid ` set (readyQueue state) \<union> pid ` set (arrivedProcesses state processes)"
  by (simp add: admitArrivals_def pids_foldl_admit)

lemma distinct_admitArrivals:
  "distinct (map pid (readyQueue state)) \<Longrightarrow> distinct (map pid (admitArrivals state processes))"
  by (simp add: admitArrivals_def distinct_foldl_admit)

lemma arrivedProcesses_iff:
  "p \<in> set (arrivedProcesses state processes) \<longleftrightarrow>
     p \<in> set processes \<and> arrival p = currentTime state
     \<and> pid p \<notin> set (completedProcesses state) \<and> remaining p > 0"
  by (auto simp: arrivedProcesses_def)

lemma in_pids_admitArrivals:
  "(\<exists>q\<in>set (admitArrivals state processes). pid q = i) \<longleftrightarrow>
     (\<exists>q\<in>set (readyQueue state). pid q = i)
     \<or> (\<exists>q\<in>set (arrivedProcesses state processes). pid q = i)"
proof -
  have e: "(\<exists>q\<in>set xs. pid q = i) \<longleftrightarrow> i \<in> pid ` set xs" for xs by auto
  show ?thesis unfolding e pids_admitArrivals by blast
qed

lemma retire_cases:
  "retire processes l = l
   \<or> (\<exists>c. l_current l = Some c \<and> liveRemaining processes (pid c) = Some 0
          \<and> retire processes l =
              l\<lparr>l_completed := l_completed l @ [pid c],
                l_queue := filter (\<lambda>p. pid p \<noteq> pid c) (l_queue l),
                l_current := None, l_quantum := 0\<rparr>)"
  by (auto simp: retire_def split: option.splits)

lemma find_pid_Some: "find (\<lambda>p. pid p = i) processes = Some x \<Longrightarrow> pid x = i \<and> x \<in> set processes"
  by (auto simp: find_Some_iff)

lemma expireQuantum_cases:
  "expireQuantum state processes algorithm l = l
   \<or> (\<exists>c. l_current l = Some c \<and> algorithm = ''RR''
          \<and> (\<forall>cs. find (\<lambda>p. pid p = pid c) processes = Some cs \<longrightarrow> remaining cs \<le> 0)
          \<and> expireQuantum state processes algorithm l =
              l\<lparr>l_queue := filter (\<lambda>p. pid p \<noteq> pid c) (l_queue l), l_current := None\<rparr>)
   \<or> (\<exists>c cs. l_current l = Some c \<and> algorithm = ''RR''
          \<and> find (\<lambda>p. pid p = pid c) processes = Some cs \<and> remaining cs > 0
          \<and> pid cs = pid c \<and> cs \<in> set processes
          \<and> expireQuantum state processes algorithm l =
              l\<lparr>l_queue := filter (\<lambda>p. pid p \<noteq> pid c) (l_queue l) @ [cs], l_current := None\<rparr>)"
  by (auto simp: expireQuantum_def Let_def split: option.splits dest: find_pid_Some)

lemma selectPhase_queue:
  "l_queue (selectPhase state processes algorithm quantum l) = l_queue l"
  "l_completed (selectPhase state processes algorithm quantum l) = l_completed l"
  by (simp_all add: selectPhase_def Let_def)

lemma selectPhase_current:
  assumes "availableProcesses processes l \<noteq> []"
  shows "l_current (selectPhase state processes algorithm quantum l) \<noteq> None"
proof -
  obtain r where "selectNext (availableProcesses processes l) (currentTime state) algorithm = Some r"
    using selectNext_Some [OF assms] by blast
  then show ?thesis using assms by (auto simp: selectPhase_def Let_def)
qed

lemma selectPhase_cases:
  "selectPhase state processes algorithm quantum l = l
   \<or> (\<exists>r. r \<in> set (availableProcesses processes l)
          \<and> (selectPhase state processes algorithm quantum l = l\<lparr>l_current := Some r\<rparr>
             \<or> selectPhase state processes algorithm quantum l
                  = l\<lparr>l_current := Some r, l_quantum := quantum\<rparr>))"
proof (cases "availableProcesses processes l = []")
  case True
  then show ?thesis by (simp add: selectPhase_def)
next
  case False
  then obtain r where r: "selectNext (availableProcesses processes l) (currentTime state) algorithm = Some r"
    using selectNext_Some by blast
  then have "r \<in> set (availableProcesses processes l)" by (rule selectNext_mem)
  then show ?thesis using r False by (auto simp: selectPhase_def Let_def)
qed

lemma availableProcesses_iff:
  "p \<in> set (availableProcesses processes l) \<longleftrightarrow>
     p \<in> set (l_queue l) \<and> (\<exists>r. liveRemaining processes (pid p) = Some r \<and> r > 0)
     \<and> pid p \<notin> set (l_completed l)"
  by (auto simp: availableProcesses_def split: option.splits)

section \<open>Late processes\<close>

lemma absent_retire: "absent i l \<Longrightarrow> absent i (retire processes l)"
  using retire_cases [of processes l] by (auto simp: absent_def)

lemma absent_expireQuantum: "absent i l \<Longrightarrow> absent i (expireQuantum state processes algorithm l)"
  using expireQuantum_cases [of state processes algorithm l]
  by (auto simp: absent_def dest: find_pid_Some)

lemma absent_selectPhase:
  "absent i l \<Longrightarrow> absent i (selectPhase state processes algorithm quantum l)"
  using selectPhase_cases [of state processes algorithm quantum l]
  by (auto simp: absent_def availableProcesses_iff)

lemma absent_decide:
  assumes "\<forall>p\<in>set processes. pid p = i \<longrightarrow> arrival p \<noteq> currentTime state"
    and "i \<notin> pid ` set (readyQueue state)"
    and "map_option pid (currentProcess state) \<noteq> Some i"
  shows "absent i (decide state processes algorithm quantum)"
proof -
  have "\<not> (\<exists>q\<in>set (arrivedProcesses state processes). pid q = i)"
    using assms(1) by (auto simp: arrivedProcesses_iff)
  moreover have "\<not> (\<exists>q\<in>set (readyQueue state). pid q = i)"
    using assms(2) by auto
  ultimately have "\<not> (\<exists>q\<in>set (admitArrivals state processes). pid q = i)"
    by (simp only: in_pids_admitArrivals) simp
  then have "absent i \<lparr>l_current = currentProcess state,
              l_queue = admitArrivals state processes,
              l_completed = completedProcesses state,
              l_quantum = quantumRemaining state\<rparr>"
    using assms(3) by (auto simp: absent_def)
  then show ?thesis
    unfolding decide_def
    by (intro absent_selectPhase absent_expireQuantum absent_retire)
qed

text \<open>
  C10. The step queues a process only when the current time equals its arrival time. For
  every state and every process set: if every process with the id \<open>i\<close> has an arrival time
  other than the current time (in particular one that is strictly less), \<open>i\<close> is not in the
  ready queue and \<open>i\<close> is not the id of the current process, then after the step \<open>i\<close> is
  still not in the ready queue, and it is not the id of the current process: the process
  was not selected to run.
\<close>

theorem late_process_not_admitted:
  assumes "\<forall>p\<in>set processes. pid p = i \<longrightarrow> arrival p \<noteq> currentTime state"
    and "i \<notin> pid ` set (readyQueue state)"
    and "map_option pid (currentProcess state) \<noteq> Some i"
  shows "i \<notin> pid ` set (readyQueue (executeSimulationStep state processes algorithm quantum))
       \<and> map_option pid (currentProcess (executeSimulationStep state processes algorithm quantum))
           \<noteq> Some i"
  using absent_decide [OF assms, of algorithm quantum] assms(2,3)
  by (auto simp: executeSimulationStep_def absent_def Let_def)

theorem late_process_not_admitted_witness:
  "2 \<notin> pid ` set (readyQueue (executeSimulationStep
       \<lparr>currentTime = 1, ganttChart = [segment ''P1'' 0 1],
        currentProcess = Some (fresh 1 ''P1'' 0 5), readyQueue = [fresh 1 ''P1'' 0 5],
        completedProcesses = [], quantumRemaining = 0, isRunning = True\<rparr>
       [(fresh 1 ''P1'' 0 5)\<lparr>remaining := 4\<rparr>, fresh 2 ''P2'' 0 3] ''SRT'' 2))
   \<and> map_option pid (currentProcess (executeSimulationStep
       \<lparr>currentTime = 1, ganttChart = [segment ''P1'' 0 1],
        currentProcess = Some (fresh 1 ''P1'' 0 5), readyQueue = [fresh 1 ''P1'' 0 5],
        completedProcesses = [], quantumRemaining = 0, isRunning = True\<rparr>
       [(fresh 1 ''P1'' 0 5)\<lparr>remaining := 4\<rparr>, fresh 2 ''P2'' 0 3] ''SRT'' 2)) \<noteq> Some 2"
  using late_process_not_admitted
    [of "[(fresh 1 ''P1'' 0 5)\<lparr>remaining := 4\<rparr>, fresh 2 ''P2'' 0 3]" 2
      "\<lparr>currentTime = 1, ganttChart = [segment ''P1'' 0 1],
        currentProcess = Some (fresh 1 ''P1'' 0 5), readyQueue = [fresh 1 ''P1'' 0 5],
        completedProcesses = [], quantumRemaining = 0, isRunning = True\<rparr>" "''SRT''" 2]
  by (simp add: fresh_def)

section \<open>Current process, ready queue and completed set\<close>

lemma distinct_map_filter_pid: "distinct (map pid q) \<Longrightarrow> distinct (map pid (filter P q))"
  by (simp add: distinct_map_filter)

lemma locals_ok_retire: "locals_ok l \<Longrightarrow> locals_ok (retire processes l)"
  using retire_cases [of processes l]
  by (auto simp: locals_ok_def queue_ok_def distinct_map_filter_pid)

lemma locals_ok_expireQuantum:
  "locals_ok l \<Longrightarrow> locals_ok (expireQuantum state processes algorithm l)"
  using expireQuantum_cases [of state processes algorithm l]
  by (auto simp: locals_ok_def queue_ok_def distinct_map_filter_pid dest!: find_pid_Some)

lemma locals_ok_selectPhase:
  "locals_ok l \<Longrightarrow> locals_ok (selectPhase state processes algorithm quantum l)"
  using selectPhase_cases [of state processes algorithm quantum l]
  by (auto simp: locals_ok_def queue_ok_def availableProcesses_iff)

lemma locals_ok_decide:
  assumes "state_ok state"
  shows "locals_ok (decide state processes algorithm quantum)"
proof -
  have "locals_ok \<lparr>l_current = currentProcess state,
              l_queue = admitArrivals state processes,
              l_completed = completedProcesses state,
              l_quantum = quantumRemaining state\<rparr>"
  proof -
    have "pid q \<notin> set (completedProcesses state)" if "q \<in> set (admitArrivals state processes)" for q
    proof -
      have "\<exists>q'\<in>set (admitArrivals state processes). pid q' = pid q" using that by blast
      then have "(\<exists>q'\<in>set (readyQueue state). pid q' = pid q)
         \<or> (\<exists>q'\<in>set (arrivedProcesses state processes). pid q' = pid q)"
        by (simp only: in_pids_admitArrivals)
      then show ?thesis using assms by (auto simp: state_ok_def queue_ok_def arrivedProcesses_iff)
    qed
    moreover have "\<exists>q\<in>set (admitArrivals state processes). pid q = pid c"
      if "currentProcess state = Some c" for c
    proof -
      have "\<exists>q\<in>set (readyQueue state). pid q = pid c"
        using assms that by (simp add: state_ok_def queue_ok_def)
      then show ?thesis by (simp only: in_pids_admitArrivals) simp
    qed
    ultimately show ?thesis
      using assms by (simp add: locals_ok_def state_ok_def queue_ok_def distinct_admitArrivals)
  qed
  then show ?thesis
    unfolding decide_def
    by (intro locals_ok_selectPhase locals_ok_expireQuantum locals_ok_retire)
qed

lemma state_ok_step:
  "state_ok state \<Longrightarrow> state_ok (executeSimulationStep state processes algorithm quantum)"
  using locals_ok_decide [of state processes algorithm quantum]
  by (simp add: executeSimulationStep_def state_ok_def locals_ok_def Let_def)

lemma state_ok_initial: "state_ok initialState"
  by (simp add: state_ok_def queue_ok_def initialState_def)

text \<open>
  C1, as stated, fails: the selection leaves the selected process in the ready queue.
  After the first tick with the single process P1 (arrival 0, burst 5) the current process
  is P1 and the ready queue holds P1.
\<close>

theorem current_in_ready_queue_counterexample:
  "map_option pid (currentProcess (snd (driver_run ''FCFS'' 2 [fresh 1 ''P1'' 0 5] 1))) = Some 1
   \<and> map pid (readyQueue (snd (driver_run ''FCFS'' 2 [fresh 1 ''P1'' 0 5] 1))) = [1]"
  by code_simp

text \<open>
  C1, amended. In every state reached from the initial state by the driver protocol
  (decrement the remaining time of the current process, then step): an id in the completed
  set is neither in the ready queue nor the id of the current process; no id is twice in
  the ready queue; and the current process, when there is one, has its id in the ready
  queue (it stays queued while it runs).
\<close>

theorem queue_invariant:
  "let s = snd (driver_run algorithm quantum processes n) in
     (\<forall>i\<in>set (completedProcesses s).
         i \<notin> pid ` set (readyQueue s) \<and> map_option pid (currentProcess s) \<noteq> Some i)
     \<and> distinct (map pid (readyQueue s))
     \<and> (\<forall>c. currentProcess s = Some c \<longrightarrow> pid c \<in> pid ` set (readyQueue s))"
proof -
  let ?s = "snd (driver_run algorithm quantum processes n)"
  have "state_ok ?s"
    by (induction n) (simp_all add: state_ok_initial driver_step_def state_ok_step Let_def)
  then have d: "distinct (map pid (readyQueue ?s))"
    and q: "\<And>q. q \<in> set (readyQueue ?s) \<Longrightarrow> pid q \<notin> set (completedProcesses ?s)"
    and c: "\<And>c. currentProcess ?s = Some c \<Longrightarrow>
              pid c \<notin> set (completedProcesses ?s) \<and> (\<exists>q\<in>set (readyQueue ?s). pid q = pid c)"
    unfolding state_ok_def queue_ok_def by blast+
  have "i \<notin> pid ` set (readyQueue ?s) \<and> map_option pid (currentProcess ?s) \<noteq> Some i"
    if "i \<in> set (completedProcesses ?s)" for i
    using that q c by (cases "currentProcess ?s") auto
  moreover have "pid c \<in> pid ` set (readyQueue ?s)" if h: "currentProcess ?s = Some c" for c
  proof -
    from c [OF h] obtain q where "q \<in> set (readyQueue ?s)" "pid q = pid c" by blast
    then show ?thesis by (metis imageI)
  qed
  ultimately show ?thesis unfolding Let_def using d by blast
qed

theorem queue_invariant_witness:
  "1 \<in> set (completedProcesses
              (snd (driver_run ''FCFS'' 2 [fresh 1 ''P1'' 0 1, fresh 2 ''P2'' 0 2] 2)))
   \<and> 1 \<notin> pid ` set (readyQueue
              (snd (driver_run ''FCFS'' 2 [fresh 1 ''P1'' 0 1, fresh 2 ''P2'' 0 2] 2)))
   \<and> map_option pid (currentProcess
              (snd (driver_run ''FCFS'' 2 [fresh 1 ''P1'' 0 1, fresh 2 ''P2'' 0 2] 2))) = Some 2
   \<and> 2 \<in> pid ` set (readyQueue
              (snd (driver_run ''FCFS'' 2 [fresh 1 ''P1'' 0 1, fresh 2 ''P2'' 0 2] 2)))"
proof -
  let ?s = "snd (driver_run ''FCFS'' 2 [fresh 1 ''P1'' 0 1, fresh 2 ''P2'' 0 2] 2)"
  have c: "completedProcesses ?s = [1]" by code_simp
  have p: "currentProcess ?s = Some (fresh 2 ''P2'' 0 2)" by code_simp
  show ?thesis
    using queue_invariant [of "''FCFS''" 2 "[fresh 1 ''P1'' 0 1, fresh 2 ''P2'' 0 2]" 2] c p
    by (simp add: Let_def fresh_def)
qed

text \<open>The same invariant on the order of the source's callback.\<close>

lemma state_ok_running [simp]: "state_ok (s\<lparr>isRunning := b\<rparr>) = state_ok s"
  by (simp add: state_ok_def)

lemma state_ok_auto_run: "state_ok (snd (auto_run algorithm quantum processes n))"
  by (induction n) (simp_all add: state_ok_initial interval_callback_def state_ok_step)

section \<open>The structure of the timeline\<close>

lemma record_tick_cases:
  "record_tick chart label col t
     = chart @ [\<lparr>process = label, start = t, end_time = t + 1, entry_color = col\<rparr>]
       \<and> (chart = [] \<or> process (last chart) \<noteq> label)
   \<or> chart \<noteq> [] \<and> process (last chart) = label
       \<and> record_tick chart label col t = butlast chart @ [(last chart)\<lparr>end_time := t + 1\<rparr>]"
  by (auto simp: record_tick_def)

lemma map_start_extend:
  "chart \<noteq> [] \<Longrightarrow> map start (butlast chart @ [(last chart)\<lparr>end_time := u\<rparr>]) = map start chart"
  by (induction chart rule: rev_induct) simp_all

lemma map_process_extend:
  "chart \<noteq> [] \<Longrightarrow> map process (butlast chart @ [(last chart)\<lparr>end_time := u\<rparr>]) = map process chart"
  by (induction chart rule: rev_induct) simp_all

lemma timeline_ok_push:
  assumes "timeline_ok chart t" and "chart = [] \<or> process (last chart) \<noteq> label"
  shows "timeline_ok (chart @ [\<lparr>process = label, start = t, end_time = t + 1, entry_color = col\<rparr>])
           (t + 1)"
proof -
  have s: "\<forall>x\<in>set chart. start x \<le> t"
    using assms(1) by (fastforce simp: timeline_ok_def)
  have "sorted (map start chart @ [t])"
    using assms(1) s by (simp add: timeline_ok_def sorted_append)
  moreover have "distinct_adj (map process chart @ [label])"
    using assms by (auto simp: timeline_ok_def distinct_adj_append_iff last_map)
  moreover have "\<forall>e\<in>set chart. start e < end_time e \<and> end_time e \<le> t + 1"
    using assms(1) by (fastforce simp: timeline_ok_def)
  ultimately show ?thesis by (simp add: timeline_ok_def)
qed

lemma timeline_ok_extend:
  assumes "timeline_ok chart t" and "chart \<noteq> []"
  shows "timeline_ok (butlast chart @ [(last chart)\<lparr>end_time := t + 1\<rparr>]) (t + 1)"
proof -
  have l: "start (last chart) < end_time (last chart)" "end_time (last chart) \<le> t"
    using assms by (simp_all add: timeline_ok_def)
  have "\<forall>e\<in>set (butlast chart). start e < end_time e \<and> end_time e \<le> t + 1"
    using assms(1) by (fastforce simp: timeline_ok_def dest: in_set_butlastD)
  moreover have "sorted (map start (butlast chart @ [(last chart)\<lparr>end_time := t + 1\<rparr>]))"
    unfolding map_start_extend [OF assms(2)] using assms(1) by (simp add: timeline_ok_def)
  moreover have "distinct_adj (map process (butlast chart @ [(last chart)\<lparr>end_time := t + 1\<rparr>]))"
    unfolding map_process_extend [OF assms(2)] using assms(1) by (simp add: timeline_ok_def)
  ultimately show ?thesis using l by (simp add: timeline_ok_def)
qed

lemma timeline_ok_record_tick:
  "timeline_ok chart t \<Longrightarrow> timeline_ok (record_tick chart label col t) (t + 1)"
  using record_tick_cases [of chart label col t]
    timeline_ok_push [of chart t label col] timeline_ok_extend [of chart t]
  by auto

lemma timeline_ok_later: "timeline_ok chart t \<Longrightarrow> timeline_ok chart (t + 1)"
  by (fastforce simp: timeline_ok_def)

lemma timeline_ok_initial: "timeline_ok (ganttChart initialState) (currentTime initialState)"
  by (simp add: timeline_ok_def initialState_def)

lemma newGanttChart_cases:
  "newGanttChart state processes l = ganttChart state
   \<or> (\<exists>label col. newGanttChart state processes l
         = record_tick (ganttChart state) label col (currentTime state))"
  by (auto simp: newGanttChart_def split: option.splits)

text \<open>
  C9, as stated, fails on how far the last entry is extended: the step sets its end to
  the current time plus one, which is more than one tick later when an earlier step left
  a gap. Here the arrival of the only process is edited between the steps (1, then 0,
  then 5): the first step writes IDLE 0-1, the second writes nothing while the clock goes
  to 2, the third extends the entry to IDLE 0-3.
\<close>

theorem extension_by_two_counterexample:
  "ganttChart (executeSimulationStep (executeSimulationStep initialState
       [fresh 1 ''P1'' 1 1] ''FCFS'' 2) [fresh 1 ''P1'' 0 1] ''FCFS'' 2)
     = [\<lparr>process = ''IDLE'', start = 0, end_time = 1, entry_color = ''#E5E7EB''\<rparr>]
   \<and> currentTime (executeSimulationStep (executeSimulationStep initialState
       [fresh 1 ''P1'' 1 1] ''FCFS'' 2) [fresh 1 ''P1'' 0 1] ''FCFS'' 2) = 2
   \<and> ganttChart (executeSimulationStep (executeSimulationStep (executeSimulationStep initialState
       [fresh 1 ''P1'' 1 1] ''FCFS'' 2) [fresh 1 ''P1'' 0 1] ''FCFS'' 2)
       [fresh 1 ''P1'' 5 1] ''FCFS'' 2)
     = [\<lparr>process = ''IDLE'', start = 0, end_time = 3, entry_color = ''#E5E7EB''\<rparr>]"
  by code_simp

text \<open>
  C9, amended. Every step preserves the structure of the timeline: the start times do not
  decrease, no two neighbours have the same label, and every entry is a non-empty interval
  that ends by the current time. Each step either leaves the timeline as it is, or appends
  one entry for \<open>[currentTime, currentTime + 1)\<close>, or changes only the end of the last
  entry, to \<open>currentTime + 1\<close> (one more than before when the entry ended at the current
  time); the entries before the last are never changed.
\<close>

theorem timeline_step:
  assumes "timeline_ok (ganttChart state) (currentTime state)"
  shows "timeline_ok (ganttChart (executeSimulationStep state processes algorithm quantum))
           (currentTime (executeSimulationStep state processes algorithm quantum))
    \<and> (ganttChart (executeSimulationStep state processes algorithm quantum) = ganttChart state
       \<or> (\<exists>label col.
            ganttChart (executeSimulationStep state processes algorithm quantum)
              = ganttChart state
                @ [\<lparr>process = label, start = currentTime state,
                    end_time = currentTime state + 1, entry_color = col\<rparr>])
       \<or> (ganttChart state \<noteq> []
           \<and> ganttChart (executeSimulationStep state processes algorithm quantum)
              = butlast (ganttChart state)
                @ [(last (ganttChart state))\<lparr>end_time := currentTime state + 1\<rparr>]))"
proof (cases "allCompleted processes")
  case True
  then show ?thesis using assms by (simp add: executeSimulationStep_def)
next
  case False
  let ?l = "decide state processes algorithm quantum"
  have g: "ganttChart (executeSimulationStep state processes algorithm quantum)
             = newGanttChart state processes ?l"
    and t: "currentTime (executeSimulationStep state processes algorithm quantum)
             = currentTime state + 1"
    using False by (simp_all add: executeSimulationStep_def Let_def)
  from newGanttChart_cases [of state processes ?l] show ?thesis
  proof
    assume "newGanttChart state processes ?l = ganttChart state"
    then show ?thesis using assms g t by (simp add: timeline_ok_later)
  next
    assume "\<exists>label col. newGanttChart state processes ?l
         = record_tick (ganttChart state) label col (currentTime state)"
    then obtain label col where n: "newGanttChart state processes ?l
         = record_tick (ganttChart state) label col (currentTime state)" by blast
    have ok: "timeline_ok (newGanttChart state processes ?l) (currentTime state + 1)"
      using assms n by (simp add: timeline_ok_record_tick)
    from record_tick_cases [of "ganttChart state" label col "currentTime state"]
    show ?thesis using ok g t n by auto
  qed
qed

theorem timeline_step_witness:
  "timeline_ok [segment ''P1'' 0 1] 1
   \<and> timeline_ok
       (ganttChart (executeSimulationStep
          \<lparr>currentTime = 1, ganttChart = [segment ''P1'' 0 1],
           currentProcess = Some (fresh 1 ''P1'' 0 5), readyQueue = [fresh 1 ''P1'' 0 5],
           completedProcesses = [], quantumRemaining = 0, isRunning = True\<rparr>
          [(fresh 1 ''P1'' 0 5)\<lparr>remaining := 4\<rparr>] ''FCFS'' 2)) 2
   \<and> ganttChart (executeSimulationStep
          \<lparr>currentTime = 1, ganttChart = [segment ''P1'' 0 1],
           currentProcess = Some (fresh 1 ''P1'' 0 5), readyQueue = [fresh 1 ''P1'' 0 5],
           completedProcesses = [], quantumRemaining = 0, isRunning = True\<rparr>
          [(fresh 1 ''P1'' 0 5)\<lparr>remaining := 4\<rparr>] ''FCFS'' 2) = [segment ''P1'' 0 2]"
proof -
  let ?s = "\<lparr>currentTime = 1, ganttChart = [segment ''P1'' 0 1],
           currentProcess = Some (fresh 1 ''P1'' 0 5), readyQueue = [fresh 1 ''P1'' 0 5],
           completedProcesses = [], quantumRemaining = 0, isRunning = True\<rparr>"
  let ?ps = "[(fresh 1 ''P1'' 0 5)\<lparr>remaining := 4\<rparr>]"
  have h: "timeline_ok (ganttChart ?s) (currentTime ?s)"
    by (simp add: timeline_ok_def segment_def)
  have g: "ganttChart (executeSimulationStep ?s ?ps ''FCFS'' 2) = [segment ''P1'' 0 2]"
    by code_simp
  have t: "currentTime (executeSimulationStep ?s ?ps ''FCFS'' 2) = 2"
    by code_simp
  show ?thesis
    using timeline_step [OF h, of ?ps "''FCFS''" 2] h g t by simp
qed

section \<open>The timeline covers the time that has passed\<close>

lemma find_pid_distinct:
  assumes "distinct (map pid processes)" and "p \<in> set processes"
  shows "find (\<lambda>x. pid x = pid p) processes = Some p"
  using assms
proof (induction processes)
  case Nil
  then show ?case by simp
next
  case (Cons x xs)
  then show ?case by (cases "pid x = pid p") (auto simp: image_iff)
qed

lemma liveRemaining_distinct:
  "distinct (map pid processes) \<Longrightarrow> p \<in> set processes
     \<Longrightarrow> liveRemaining processes (pid p) = Some (remaining p)"
  by (simp add: liveRemaining_def find_pid_distinct)

lemma tiles_append:
  "tiles a (xs @ [e]) b \<longleftrightarrow> tiles a xs (start e) \<and> start e < end_time e \<and> end_time e = b"
  by (induction xs arbitrary: a) auto

lemma tiles_record_tick:
  assumes "tiles a chart t"
  shows "tiles a (record_tick chart label col t) (t + 1)"
proof (cases "chart \<noteq> [] \<and> process (last chart) = label")
  case True
  then have "chart = butlast chart @ [last chart]" by simp
  then have "tiles a (butlast chart @ [last chart]) t" using assms by simp
  then have "tiles a (butlast chart @ [(last chart)\<lparr>end_time := t + 1\<rparr>]) (t + 1)"
    unfolding tiles_append by simp
  then show ?thesis using True by (simp add: record_tick_def)
next
  case False
  then show ?thesis using assms by (auto simp: record_tick_def tiles_append)
qed

lemma tiles_le: "tiles a xs b \<Longrightarrow> a \<le> b"
  by (induction xs arbitrary: a) fastforce+

lemma tiles_bounds: "tiles a xs b \<Longrightarrow> e \<in> set xs \<Longrightarrow> a \<le> start e \<and> end_time e \<le> b"
proof (induction xs arbitrary: a)
  case Nil
  then show ?case by simp
next
  case (Cons x xs)
  then show ?case using tiles_le [of "end_time x" xs b] by fastforce
qed

lemma tiles_union: "tiles a xs b \<Longrightarrow> (\<Union>e\<in>set xs. {start e..<end_time e}) = {a..<b}"
proof (induction xs arbitrary: a)
  case Nil
  then show ?case by simp
next
  case (Cons x xs)
  then have "(\<Union>e\<in>set xs. {start e..<end_time e}) = {end_time x..<b}" by simp
  moreover have "a < end_time x" "end_time x \<le> b" "start x = a"
    using Cons.prems tiles_le [of "end_time x" xs b] by simp_all
  ultimately show ?case by auto
qed

lemma tiles_ordered:
  "tiles a xs b \<Longrightarrow> i < j \<Longrightarrow> j < length xs \<Longrightarrow> end_time (xs ! i) \<le> start (xs ! j)"
proof (induction xs arbitrary: a i j)
  case Nil
  then show ?case by simp
next
  case (Cons x xs)
  obtain j' where j: "j = Suc j'" using Cons.prems(2) by (cases j) simp_all
  show ?case
  proof (cases i)
    case 0
    have "xs ! j' \<in> set xs" using Cons.prems(3) j by simp
    then show ?thesis using tiles_bounds [of "end_time x" xs b "xs ! j'"] Cons.prems(1) 0 j by simp
  next
    case (Suc i')
    then show ?thesis using Cons.IH [of "end_time x" i' j'] Cons.prems j by simp
  qed
qed

lemma tiles_adjacent:
  "tiles a xs b \<Longrightarrow> Suc i < length xs \<Longrightarrow> end_time (xs ! i) = start (xs ! Suc i)"
proof (induction xs arbitrary: a i)
  case Nil
  then show ?case by simp
next
  case (Cons x xs)
  show ?case
  proof (cases i)
    case 0
    then show ?thesis using Cons.prems by (cases xs) simp_all
  next
    case (Suc i')
    then show ?thesis using Cons.IH [of "end_time x" i'] Cons.prems by simp
  qed
qed

lemma kept_retire:
  assumes d: "distinct (map pid processes)" and k: "kept processes t l"
  shows "kept processes t (retire processes l)"
  using retire_cases [of processes l]
proof
  assume "retire processes l = l"
  then show ?thesis using k by simp
next
  assume "\<exists>c. l_current l = Some c \<and> liveRemaining processes (pid c) = Some 0
          \<and> retire processes l =
              l\<lparr>l_completed := l_completed l @ [pid c],
                l_queue := filter (\<lambda>p. pid p \<noteq> pid c) (l_queue l),
                l_current := None, l_quantum := 0\<rparr>"
  then obtain c :: process where c: "liveRemaining processes (pid c) = Some 0"
    and r: "retire processes l =
              l\<lparr>l_completed := l_completed l @ [pid c],
                l_queue := filter (\<lambda>p. pid p \<noteq> pid c) (l_queue l),
                l_current := None, l_quantum := 0\<rparr>" by (elim exE conjE)
  have z: "remaining p = 0" if "p \<in> set processes" "pid p = pid c" for p
    using liveRemaining_distinct [OF d that(1)] c that(2) by simp
  have "present processes t (filter (\<lambda>p. pid p \<noteq> pid c) (l_queue l))"
    unfolding present_def
  proof (intro ballI impI)
    fix p assume p: "p \<in> set processes" "0 < remaining p \<and> arrival p \<le> t"
    then obtain q where q: "q \<in> set (l_queue l)" "pid q = pid p"
      using k by (auto simp: kept_def present_def)
    have "pid p \<noteq> pid c" using z [OF p(1)] p(2) by auto
    then show "\<exists>q\<in>set (filter (\<lambda>p. pid p \<noteq> pid c) (l_queue l)). pid q = pid p"
      using q by auto
  qed
  moreover have "finished processes (l_completed l @ [pid c])"
    using k z by (auto simp: kept_def finished_def)
  ultimately show ?thesis using r by (simp add: kept_def)
qed

lemma kept_expireQuantum:
  assumes d: "distinct (map pid processes)" and k: "kept processes t l"
  shows "kept processes t (expireQuantum state processes algorithm l)"
proof -
  have f: "finished processes (l_completed (expireQuantum state processes algorithm l))"
    using expireQuantum_cases [of state processes algorithm l] k by (auto simp: kept_def)
  have "present processes t (l_queue (expireQuantum state processes algorithm l))"
    unfolding present_def
  proof (intro ballI impI)
    fix p assume p: "p \<in> set processes" "0 < remaining p \<and> arrival p \<le> t"
    then obtain q where q: "q \<in> set (l_queue l)" "pid q = pid p"
      using k by (auto simp: kept_def present_def)
    have fp: "find (\<lambda>x. pid x = pid p) processes = Some p"
      using find_pid_distinct [OF d p(1)] .
    from expireQuantum_cases [of state processes algorithm l]
    show "\<exists>q\<in>set (l_queue (expireQuantum state processes algorithm l)). pid q = pid p"
    proof (elim disjE exE conjE)
      assume "expireQuantum state processes algorithm l = l"
      then show ?thesis using q by auto
    next
      fix c :: process
      assume n: "\<forall>cs. find (\<lambda>p. pid p = pid c) processes = Some cs \<longrightarrow> remaining cs \<le> 0"
        and e: "expireQuantum state processes algorithm l =
              l\<lparr>l_queue := filter (\<lambda>p. pid p \<noteq> pid c) (l_queue l), l_current := None\<rparr>"
      have "pid p \<noteq> pid c"
      proof
        assume "pid p = pid c"
        then have "remaining p \<le> 0" using n fp by simp
        then show False using p(2) by simp
      qed
      then show ?thesis using q e by auto
    next
      fix c cs :: process
      assume cs: "pid cs = pid c"
        and e: "expireQuantum state processes algorithm l =
              l\<lparr>l_queue := filter (\<lambda>p. pid p \<noteq> pid c) (l_queue l) @ [cs], l_current := None\<rparr>"
      show ?thesis
      proof (cases "pid p = pid c")
        case True
        then show ?thesis using e cs by simp
      next
        case False
        then show ?thesis using q e by auto
      qed
    qed
  qed
  then show ?thesis using f by (simp add: kept_def)
qed

lemma kept_selectPhase:
  "kept processes t l \<Longrightarrow> kept processes t (selectPhase state processes algorithm quantum l)"
  by (simp add: kept_def selectPhase_queue)

lemma kept_start:
  assumes "present processes (currentTime state - 1) (readyQueue state)"
    and "finished processes (completedProcesses state)"
  shows "kept processes (currentTime state)
           \<lparr>l_current = currentProcess state,
            l_queue = admitArrivals state processes,
            l_completed = completedProcesses state,
            l_quantum = quantumRemaining state\<rparr>"
proof -
  have "\<exists>q\<in>set (admitArrivals state processes). pid q = pid p"
    if p: "p \<in> set processes" "0 < remaining p" "arrival p \<le> currentTime state" for p
  proof (cases "arrival p = currentTime state")
    case True
    have "pid p \<notin> set (completedProcesses state)"
      using assms(2) p by (auto simp: finished_def)
    then have "p \<in> set (arrivedProcesses state processes)"
      using p True by (simp add: arrivedProcesses_iff)
    then have "\<exists>q\<in>set (arrivedProcesses state processes). pid q = pid p" by blast
    then show ?thesis by (simp only: in_pids_admitArrivals) simp
  next
    case False
    then have "arrival p \<le> currentTime state - 1" using p(3) by simp
    then have "\<exists>q\<in>set (readyQueue state). pid q = pid p"
      using assms(1) p by (auto simp: present_def)
    then show ?thesis by (simp only: in_pids_admitArrivals) simp
  qed
  then show ?thesis using assms(2) by (simp add: kept_def present_def)
qed

lemma kept_decide:
  assumes "distinct (map pid processes)"
    and "present processes (currentTime state - 1) (readyQueue state)"
    and "finished processes (completedProcesses state)"
  shows "kept processes (currentTime state) (decide state processes algorithm quantum)"
  unfolding decide_def
  by (intro kept_selectPhase kept_expireQuantum kept_retire kept_start assms)

text \<open>Some process runs, or the processor waits for an arrival.\<close>

lemma busy_or_waiting:
  assumes wf: "well_formed processes"
    and nc: "\<not> allCompleted processes"
    and pr: "present processes (currentTime state - 1) (readyQueue state)"
    and fi: "finished processes (completedProcesses state)"
  shows "l_current (decide state processes algorithm quantum) \<noteq> None
         \<or> hasUnArrived state processes"
proof -
  have d: "distinct (map pid processes)" using wf by (simp add: well_formed_def)
  obtain p where p: "p \<in> set processes" "remaining p \<noteq> 0"
    using nc by (auto simp: allCompleted_def list_all_iff)
  then have pos: "0 < remaining p" using wf by (fastforce simp: well_formed_def)
  show ?thesis
  proof (cases "arrival p > currentTime state")
    case True
    then have "hasUnArrived state processes"
      using p pos by (auto simp: hasUnArrived_def list_ex_iff)
    then show ?thesis by simp
  next
    case False
    let ?l2 = "expireQuantum state processes algorithm
          (retire processes
             \<lparr>l_current = currentProcess state,
              l_queue = admitArrivals state processes,
              l_completed = completedProcesses state,
              l_quantum = quantumRemaining state\<rparr>)"
    have k: "kept processes (currentTime state) ?l2"
      by (intro kept_expireQuantum kept_retire kept_start d pr fi)
    then obtain q where q: "q \<in> set (l_queue ?l2)" "pid q = pid p"
      using p(1) pos False by (auto simp: kept_def present_def)
    have "liveRemaining processes (pid q) = Some (remaining p)"
      using liveRemaining_distinct [OF d p(1)] q(2) by simp
    moreover have "pid q \<notin> set (l_completed ?l2)"
      using k p(1) pos q(2) by (auto simp: kept_def finished_def)
    ultimately have "q \<in> set (availableProcesses processes ?l2)"
      using q(1) pos by (simp add: availableProcesses_iff)
    then have "availableProcesses processes ?l2 \<noteq> []" by auto
    then have "l_current (selectPhase state processes algorithm quantum ?l2) \<noteq> None"
      by (rule selectPhase_current)
    then show ?thesis by (simp add: decide_def)
  qed
qed

lemma cover_inv_step:
  assumes "cover_inv processes state"
  shows "cover_inv processes (executeSimulationStep state processes algorithm quantum)"
proof (cases "allCompleted processes")
  case True
  then show ?thesis using assms by (simp add: executeSimulationStep_def cover_inv_def)
next
  case False
  let ?l = "decide state processes algorithm quantum"
  have wf: "well_formed processes"
    and ti: "tiles 0 (ganttChart state) (currentTime state)"
    and pr: "present processes (currentTime state - 1) (readyQueue state)"
    and fi: "finished processes (completedProcesses state)"
    using assms by (simp_all add: cover_inv_def)
  have d: "distinct (map pid processes)" using wf by (simp add: well_formed_def)
  have k: "kept processes (currentTime state) ?l"
    using kept_decide [OF d pr fi] .
  have "l_current ?l \<noteq> None \<or> hasUnArrived state processes"
    using busy_or_waiting [OF wf False pr fi] .
  then have "\<exists>label col. newGanttChart state processes ?l
               = record_tick (ganttChart state) label col (currentTime state)"
    by (auto simp: newGanttChart_def split: option.splits)
  then have "tiles 0 (newGanttChart state processes ?l) (currentTime state + 1)"
    using tiles_record_tick [OF ti] by auto
  then show ?thesis
    using False wf k by (simp add: executeSimulationStep_def cover_inv_def Let_def kept_def)
qed

lemma cover_inv_decrement:
  assumes "cover_inv processes state"
  shows "cover_inv (decrementCurrent processes cur) state"
proof (cases cur)
  case None
  then show ?thesis using assms by (simp add: decrementCurrent_def)
next
  case (Some c)
  let ?f = "\<lambda>p. if pid p = pid c then p\<lparr>remaining := max 0 (remaining p - 1)\<rparr> else p"
  have e: "decrementCurrent processes cur = map ?f processes"
    using Some by (simp add: decrementCurrent_def)
  have ids: "map pid (map ?f processes) = map pid processes" by (induction processes) auto
  have fp: "pid (?f p) = pid p" "arrival (?f p) = arrival p" for p by simp_all
  have rem: "0 < remaining (?f p) \<Longrightarrow> 0 < remaining p"
    "remaining p = 0 \<Longrightarrow> remaining (?f p) = 0" "0 \<le> remaining p \<Longrightarrow> 0 \<le> remaining (?f p)" for p
    by (auto split: if_splits)
  have wf: "well_formed (map ?f processes)"
    using assms unfolding cover_inv_def well_formed_def ids
    by (auto simp del: map_map split: if_splits)
  have pr: "present (map ?f processes) (currentTime state - 1) (readyQueue state)"
    unfolding present_def
  proof (intro ballI impI)
    fix p' assume "p' \<in> set (map ?f processes)"
      and h: "0 < remaining p' \<and> arrival p' \<le> currentTime state - 1"
    then obtain p where p: "p \<in> set processes" "p' = ?f p" by auto
    have "0 < remaining p \<and> arrival p \<le> currentTime state - 1"
      using h p(2) by (auto split: if_splits)
    then have "\<exists>q\<in>set (readyQueue state). pid q = pid p"
      using assms p(1) by (auto simp: cover_inv_def present_def)
    then show "\<exists>q\<in>set (readyQueue state). pid q = pid p'" using p(2) by (auto split: if_splits)
  qed
  have fi: "finished (map ?f processes) (completedProcesses state)"
    unfolding finished_def
  proof (intro ballI impI)
    fix p' assume "p' \<in> set (map ?f processes)" and h: "pid p' \<in> set (completedProcesses state)"
    then obtain p where p: "p \<in> set processes" "p' = ?f p" by auto
    have "pid p \<in> set (completedProcesses state)" using h p(2) by (auto split: if_splits)
    then have "remaining p = 0" using assms p(1) by (auto simp: cover_inv_def finished_def)
    then show "remaining p' = 0" using p(2) by (auto split: if_splits)
  qed
  show ?thesis using wf pr fi assms unfolding e by (simp add: cover_inv_def)
qed

lemma cover_inv_initial: "well_formed processes \<Longrightarrow> cover_inv processes initialState"
  by (auto simp: cover_inv_def initialState_def present_def finished_def well_formed_def)

lemma cover_inv_run:
  assumes "well_formed processes"
  shows "cover_inv (fst (driver_run algorithm quantum processes n))
           (snd (driver_run algorithm quantum processes n))"
proof (induction n)
  case 0
  then show ?case using assms by (simp add: cover_inv_initial)
next
  case (Suc n)
  then show ?case
    by (simp add: driver_step_def Let_def cover_inv_step cover_inv_decrement)
qed

text \<open>
  C4. For a process set with unique ids and no negative arrival or remaining time, in
  every state reached from the initial state by the driver protocol, the intervals of the
  timeline cover \<open>[0, currentTime)\<close> exactly: their union is that range, two different
  entries never overlap, and each entry starts where the one before it ends.
\<close>

theorem timeline_coverage:
  assumes "well_formed processes"
  shows "let s = snd (driver_run algorithm quantum processes n); chart = ganttChart s in
     (\<Union>e\<in>set chart. {start e..<end_time e}) = {0..<currentTime s}
     \<and> (\<forall>i j. i < j \<and> j < length chart \<longrightarrow>
           {start (chart ! i)..<end_time (chart ! i)}
             \<inter> {start (chart ! j)..<end_time (chart ! j)} = {})
     \<and> (\<forall>i. Suc i < length chart \<longrightarrow> end_time (chart ! i) = start (chart ! Suc i))
     \<and> tiles 0 chart (currentTime s)"
proof -
  let ?s = "snd (driver_run algorithm quantum processes n)"
  have t: "tiles 0 (ganttChart ?s) (currentTime ?s)"
    using cover_inv_run [OF assms, of algorithm quantum n] by (simp add: cover_inv_def)
  have "{start (ganttChart ?s ! i)..<end_time (ganttChart ?s ! i)}
          \<inter> {start (ganttChart ?s ! j)..<end_time (ganttChart ?s ! j)} = {}"
    if "i < j" "j < length (ganttChart ?s)" for i j
    using tiles_ordered [OF t that] by auto
  moreover have "end_time (ganttChart ?s ! i) = start (ganttChart ?s ! Suc i)"
    if "Suc i < length (ganttChart ?s)" for i
    using tiles_adjacent [OF t that] .
  ultimately show ?thesis unfolding Let_def using t tiles_union [OF t] by blast
qed

theorem timeline_coverage_witness:
  "well_formed [fresh 1 ''P1'' 0 2, fresh 2 ''P2'' 4 1]
   \<and> ganttChart (snd (driver_run ''FCFS'' 2 [fresh 1 ''P1'' 0 2, fresh 2 ''P2'' 4 1] 5))
       = [segment ''P1'' 0 2,
          \<lparr>process = ''IDLE'', start = 2, end_time = 4, entry_color = ''#E5E7EB''\<rparr>,
          segment ''P2'' 4 5]
   \<and> (\<Union>e\<in>set (ganttChart
           (snd (driver_run ''FCFS'' 2 [fresh 1 ''P1'' 0 2, fresh 2 ''P2'' 4 1] 5))).
         {start e..<end_time e}) = {0..<5}"
proof -
  let ?ps = "[fresh 1 ''P1'' 0 2, fresh 2 ''P2'' 4 1]"
  have wf: "well_formed ?ps" by (simp add: well_formed_def fresh_def)
  have g: "ganttChart (snd (driver_run ''FCFS'' 2 ?ps 5))
       = [segment ''P1'' 0 2,
          \<lparr>process = ''IDLE'', start = 2, end_time = 4, entry_color = ''#E5E7EB''\<rparr>,
          segment ''P2'' 4 5]" by code_simp
  have t: "currentTime (snd (driver_run ''FCFS'' 2 ?ps 5)) = 5" by code_simp
  have "(\<Union>e\<in>set (ganttChart (snd (driver_run ''FCFS'' 2 ?ps 5))). {start e..<end_time e})
          = {0..<currentTime (snd (driver_run ''FCFS'' 2 ?ps 5))}"
    using timeline_coverage [OF wf, of "''FCFS''" 2 5] by (simp add: Let_def)
  then show ?thesis using wf g t by simp
qed

text \<open>The same on the order of the source's callback.\<close>

lemma cover_inv_running [simp]: "cover_inv processes (s\<lparr>isRunning := b\<rparr>) = cover_inv processes s"
  by (simp add: cover_inv_def)

lemma cover_inv_auto_run:
  assumes "well_formed processes"
  shows "cover_inv (fst (auto_run algorithm quantum processes n))
           (snd (auto_run algorithm quantum processes n))"
proof (induction n)
  case 0
  then show ?case using assms by (simp add: cover_inv_initial)
next
  case (Suc n)
  then show ?case
    by (simp add: interval_callback_def cover_inv_step cover_inv_decrement)
qed

lemma tiles_auto_run:
  assumes "well_formed processes"
  shows "tiles 0 (ganttChart (snd (auto_run algorithm quantum processes n)))
           (currentTime (snd (auto_run algorithm quantum processes n)))"
  using cover_inv_auto_run [OF assms, of algorithm quantum n] by (simp add: cover_inv_def)

end
